theory Spec2Isabelle
  imports Main "HOL-Library.Word"
begin

section \<open>GoCache: an LRU cache with per-entry TTL (internal/cache/cache.go)\<close>

text \<open>
  The Go package keeps a \<^verbatim>\<open>map[string]*list.Element\<close> (the index) next to a
  \<^verbatim>\<open>container/list\<close> doubly-linked list (the recency order), whose elements carry a
  pointer to an \<^verbatim>\<open>entry\<close>. The embedding keeps the two structures apart, as the code does:

  \<^item> list elements live in a store \<open>elems\<close>; the handle of an element (the Go pointer
    \<^verbatim>\<open>*list.Element\<close>) is its position in the store, and a new element is appended;
  \<^item> \<open>lru\<close> is the list of handles, front (MRU) first;
  \<^item> \<open>items\<close> is the index as an association list from key to handle. Its order stands
    for the iteration order of the Go map, which the language leaves open;
  \<^item> byte slices are references into a heap of byte arrays, \<open>None\<close> being the nil slice,
    so that the copies made by \<^verbatim>\<open>cloneBytes\<close> and the aliasing they avoid are visible.
    A slice shows the whole of its array (length and capacity are the array's): slices of
    a part of an array are not modelled;
  \<^item> instants (\<^verbatim>\<open>time.Time\<close>) and durations (\<^verbatim>\<open>time.Duration\<close>) are integers
    (nanoseconds); \<^verbatim>\<open>time.Now()\<close> is a parameter \<open>now\<close> of the operation that reads it.
    The integers are unbounded: \<^verbatim>\<open>now.Add(ttl)\<close> is \<open>now + ttl\<close>, which is what Go computes
    as long as the sum is a representable instant, as it is for every clock reading and
    every 64-bit duration;
  \<^item> the lock is not modelled: every operation runs as one atomic step, which is what the
    write lock gives each critical section. \<^verbatim>\<open>Get\<close> runs its two critical sections back
    to back.
\<close>

subsection \<open>Data model\<close>

type_synonym byte = "8 word"
type_synonym addr = nat
type_synonym slice = "addr option"
type_synonym heap = "byte list list"

text \<open>Reading the array a slice refers to. Go is memory safe, so a slice held by the
  program always refers to an allocated array; the second branch is never taken there.\<close>

definition load :: "heap \<Rightarrow> addr \<Rightarrow> byte list" where
  "load h a = (if a < length h then h ! a else [])"

text \<open>The bytes a slice shows to its holder; the nil slice has none.\<close>

definition bytes_of :: "heap \<Rightarrow> slice \<Rightarrow> byte list" where
  "bytes_of h s = (case s of None \<Rightarrow> [] | Some a \<Rightarrow> load h a)"

text \<open>A write by the holder of a slice through that slice.\<close>

definition mutate :: "slice \<Rightarrow> byte list \<Rightarrow> heap \<Rightarrow> heap" where
  "mutate s bs h = (case s of None \<Rightarrow> h | Some a \<Rightarrow> h[a := bs])"

record entry =
  key :: string
  val :: slice
  expiresAt :: int
  hasExpiry :: bool

record Config =
  MaxEntries :: int
  CleanupInterval :: int

record cache =
  maxEntries :: int
  items :: "(string \<times> nat) list"
  lru :: "nat list"
  elems :: "entry list"
  cancelled :: bool
  cleanupEvery :: int
  closed :: bool

datatype error = ErrClosed

text \<open>The zero value of \<^verbatim>\<open>time.Time\<close>, left in \<open>expiresAt\<close> when there is no expiry.\<close>

definition zeroTime :: int where
  "zeroTime = 0"

subsection \<open>container/list, on handles\<close>

text \<open>\<^verbatim>\<open>Remove\<close> and \<^verbatim>\<open>MoveToFront\<close> do nothing for an element that is not in the list
  (\<^verbatim>\<open>e.list != l\<close>).\<close>

definition PushFront :: "nat \<Rightarrow> nat list \<Rightarrow> nat list" where
  "PushFront el l = el # l"

definition Remove :: "nat \<Rightarrow> nat list \<Rightarrow> nat list" where
  "Remove el l = remove1 el l"

definition MoveToFront :: "nat \<Rightarrow> nat list \<Rightarrow> nat list" where
  "MoveToFront el l = (if el \<in> set l then el # remove1 el l else l)"

definition Back :: "nat list \<Rightarrow> nat option" where
  "Back l = (if l = [] then None else Some (last l))"

subsection \<open>The map, as an association list\<close>

definition lookup :: "(string \<times> nat) list \<Rightarrow> string \<Rightarrow> nat option" where
  "lookup m k = map_of m k"

definition delete :: "string \<Rightarrow> (string \<times> nat) list \<Rightarrow> (string \<times> nat) list" where
  "delete k m = filter (\<lambda>p. fst p \<noteq> k) m"

definition insert_new :: "string \<Rightarrow> nat \<Rightarrow> (string \<times> nat) list \<Rightarrow> (string \<times> nat) list" where
  "insert_new k el m = (k, el) # m"

subsection \<open>Operations\<close>

text \<open>\<^verbatim>\<open>e.hasExpiry && !e.expiresAt.After(now)\<close>, the test the source writes out in
  \<^verbatim>\<open>Get\<close>, \<^verbatim>\<open>deleteIfExpiredLocked\<close> and \<^verbatim>\<open>deleteExpiredLocked\<close>.\<close>

definition expired :: "entry \<Rightarrow> int \<Rightarrow> bool" where
  "expired e now = (hasExpiry e \<and> \<not> (expiresAt e > now))"

definition cloneBytes :: "slice \<Rightarrow> heap \<Rightarrow> slice \<times> heap" where
  "cloneBytes b h =
     (case b of
        None \<Rightarrow> (None, h)
      | Some a \<Rightarrow> (Some (length h), h @ [load h a]))"

definition New :: "Config \<Rightarrow> cache" where
  "New cfg =
     \<lparr> maxEntries = MaxEntries cfg, items = [], lru = [], elems = [],
       cancelled = False, cleanupEvery = CleanupInterval cfg, closed = False \<rparr>"

text \<open>The worker goroutine is started by \<^verbatim>\<open>New\<close> exactly when the interval is positive.\<close>

definition workerStarted :: "cache \<Rightarrow> bool" where
  "workerStarted c = (cleanupEvery c > 0)"

definition Close :: "cache \<Rightarrow> error option \<times> cache" where
  "Close c =
     (if closed c then (None, c)
      else (None, c\<lparr>closed := True, cancelled := True\<rparr>))"

definition deleteLocked :: "string \<Rightarrow> cache \<Rightarrow> cache" where
  "deleteLocked k c =
     (case lookup (items c) k of
        None \<Rightarrow> c
      | Some el \<Rightarrow> c\<lparr>items := delete k (items c), lru := Remove el (lru c)\<rparr>)"

definition deleteIfExpiredLocked :: "string \<Rightarrow> int \<Rightarrow> cache \<Rightarrow> bool \<times> cache" where
  "deleteIfExpiredLocked k now c =
     (case lookup (items c) k of
        None \<Rightarrow> (False, c)
      | Some el \<Rightarrow>
          (if expired (elems c ! el) now then (True, deleteLocked k c) else (False, c)))"

text \<open>The loop of \<^verbatim>\<open>deleteExpiredLocked\<close> over the pairs the \<^verbatim>\<open>range\<close> yields; the
  first component counts the removals.\<close>

fun sweep :: "(string \<times> nat) list \<Rightarrow> int \<Rightarrow> cache \<Rightarrow> nat \<times> cache" where
  "sweep [] now c = (0, c)"
| "sweep ((k, el) # rest) now c =
     (if expired (elems c ! el) now
      then (let r = sweep rest now (c\<lparr>items := delete k (items c), lru := Remove el (lru c)\<rparr>)
            in (Suc (fst r), snd r))
      else sweep rest now c)"

definition deleteExpiredLocked :: "int \<Rightarrow> cache \<Rightarrow> nat \<times> cache" where
  "deleteExpiredLocked now c = sweep (items c) now c"

text \<open>The \<^verbatim>\<open>for len(c.items) > c.maxEntries\<close> loop. When the key of the back element is
  not in the index, \<^verbatim>\<open>deleteLocked\<close> changes nothing and the loop does not end: it has no
  value then (\<open>None\<close>).\<close>

partial_function (option) evictLoop :: "cache \<Rightarrow> cache option" where
  "evictLoop c =
     (if int (length (items c)) > maxEntries c
      then (case Back (lru c) of
              None \<Rightarrow> Some c
            | Some el \<Rightarrow> evictLoop (deleteLocked (key (elems c ! el)) c))
      else Some c)"

definition evictIfNeededLocked :: "int \<Rightarrow> cache \<Rightarrow> cache option" where
  "evictIfNeededLocked now c =
     (if maxEntries c \<le> 0 then Some c
      else evictLoop (snd (deleteExpiredLocked now c)))"

text \<open>The state of \<^verbatim>\<open>Set\<close> just before it calls \<^verbatim>\<open>evictIfNeededLocked\<close>: the entry
  is overwritten in place and its element moved to the front, or a new element is pushed
  to the front and entered in the index.\<close>

definition store :: "string \<Rightarrow> slice \<Rightarrow> int \<Rightarrow> int \<Rightarrow> heap \<times> cache \<Rightarrow> heap \<times> cache" where
  "store k v ttl now hc =
     (let h = fst hc; c = snd hc;
          hasExp = (ttl > 0);
          exp = (if hasExp then now + ttl else zeroTime)
      in case lookup (items c) k of
           Some el \<Rightarrow>
             (let cl = cloneBytes v h;
                  e = (elems c ! el)\<lparr>val := fst cl, hasExpiry := hasExp, expiresAt := exp\<rparr>
              in (snd cl, c\<lparr>elems := (elems c)[el := e], lru := MoveToFront el (lru c)\<rparr>))
         | None \<Rightarrow>
             (let cl = cloneBytes v h;
                  e = \<lparr>key = k, val = fst cl, expiresAt = exp, hasExpiry = hasExp\<rparr>;
                  el = length (elems c)
              in (snd cl, c\<lparr>elems := elems c @ [e], lru := PushFront el (lru c),
                               items := insert_new k el (items c)\<rparr>)))"

definition Set :: "string \<Rightarrow> slice \<Rightarrow> int \<Rightarrow> int \<Rightarrow> heap \<times> cache
    \<Rightarrow> (error option \<times> heap \<times> cache) option" where
  "Set k v ttl now hc =
     (if closed (snd hc) then Some (Some ErrClosed, hc)
      else (let s = store k v ttl now hc
            in case evictIfNeededLocked now (snd s) of
                 None \<Rightarrow> None
               | Some c' \<Rightarrow> Some (None, fst s, c')))"

definition Get :: "string \<Rightarrow> int \<Rightarrow> heap \<times> cache \<Rightarrow> (slice \<times> bool) \<times> heap \<times> cache" where
  "Get k now hc =
     (let h = fst hc; c = snd hc
      in case lookup (items c) k of
           None \<Rightarrow> ((None, False), h, c)
         | Some el \<Rightarrow>
             (if expired (elems c ! el) now
              then ((None, False), h, snd (deleteIfExpiredLocked k now c))
              else (case lookup (items c) k of
                      None \<Rightarrow> ((None, False), h, c)
                    | Some el2 \<Rightarrow>
                        (if expired (elems c ! el2) now
                         then ((None, False), h, deleteLocked k c)
                         else (let c' = c\<lparr>lru := MoveToFront el2 (lru c)\<rparr>;
                                   cl = cloneBytes (val (elems c ! el2)) h
                               in ((fst cl, True), snd cl, c'))))))"

definition Delete :: "string \<Rightarrow> cache \<Rightarrow> error option \<times> cache" where
  "Delete k c =
     (if closed c then (Some ErrClosed, c) else (None, deleteLocked k c))"

definition Len :: "cache \<Rightarrow> int" where
  "Len c = int (length (items c))"

definition Keys :: "cache \<Rightarrow> string list" where
  "Keys c = map (\<lambda>el. key (elems c ! el)) (lru c)"

text \<open>One tick of \<^verbatim>\<open>expiryLoop\<close> (maintenance.go): the sweep at the tick's time.\<close>

definition expiryTick :: "int \<Rightarrow> cache \<Rightarrow> cache" where
  "expiryTick now c = snd (deleteExpiredLocked now c)"

subsection \<open>The joint invariant of index and recency list\<close>

text \<open>Keys and handles of the index are distinct, the list has no handle twice, index and
  list hold the same handles, and every handle of the index is an element of the store
  whose entry carries the key it is filed under.\<close>

definition cache_inv :: "cache \<Rightarrow> bool" where
  "cache_inv c \<longleftrightarrow>
     distinct (map fst (items c)) \<and> distinct (map snd (items c)) \<and> distinct (lru c) \<and>
     set (map snd (items c)) = set (lru c) \<and>
     (\<forall>p \<in> set (items c). snd p < length (elems c) \<and> key (elems c ! snd p) = fst p)"

subsection \<open>Auxiliary notions for the proofs\<close>

text \<open>Restricting index and list to the handles that satisfy \<open>P\<close>.\<close>

definition keep :: "(nat \<Rightarrow> bool) \<Rightarrow> cache \<Rightarrow> cache" where
  "keep P c = c\<lparr>items := filter (\<lambda>p. P (snd p)) (items c), lru := filter P (lru c)\<rparr>"

text \<open>The element \<^verbatim>\<open>Set\<close> writes: the one the key has, or the next one of the store.\<close>

definition handle_of :: "string \<Rightarrow> cache \<Rightarrow> nat" where
  "handle_of k c = (case lookup (items c) k of Some el \<Rightarrow> el | None \<Rightarrow> length (elems c))"

definition expiry_of :: "int \<Rightarrow> int \<Rightarrow> int" where
  "expiry_of ttl now = (if ttl > 0 then now + ttl else zeroTime)"

definition live :: "cache \<Rightarrow> int \<Rightarrow> nat \<Rightarrow> bool" where
  "live c now el = (\<not> expired (elems c ! el) now)"

text \<open>What \<^verbatim>\<open>evictIfNeededLocked\<close> computes on a state that satisfies the invariant.\<close>

definition enforce :: "int \<Rightarrow> cache \<Rightarrow> cache" where
  "enforce now c =
     (if maxEntries c \<le> 0 then c
      else keep (\<lambda>el. el \<in> set (take (nat (maxEntries c)) (filter (live c now) (lru c)))) c)"

subsection \<open>Example states\<close>

text \<open>A heap with the arrays \<open>"A"\<close> and \<open>"B"\<close>, and a cache of capacity 2 holding
  \<open>a\<close> (most recently used, expiring at time 5) and \<open>b\<close> (least recently used, never
  expiring), whose values are these arrays.\<close>

definition ex_heap :: heap where
  "ex_heap = [[65], [66]]"

definition ex_full :: cache where
  "ex_full =
     \<lparr> maxEntries = 2, items = [(''a'', 0), (''b'', 1)], lru = [0, 1],
       elems = [\<lparr>key = ''a'', val = Some 0, expiresAt = 5, hasExpiry = True\<rparr>,
                \<lparr>key = ''b'', val = Some 1, expiresAt = 0, hasExpiry = False\<rparr>],
       cancelled = False, cleanupEvery = 0, closed = False \<rparr>"

text \<open>The example cache without a capacity, and the example cache after \<^verbatim>\<open>Close\<close>.\<close>

definition ex_unbounded :: cache where
  "ex_unbounded = ex_full\<lparr>maxEntries := 0\<rparr>"

definition ex_closed :: cache where
  "ex_closed = snd (Close ex_full)"

text \<open>The scenario of \<^verbatim>\<open>TestLRUEviction\<close>: a heap with the arrays \<open>"A"\<close>, \<open>"B"\<close>,
  \<open>"C"\<close>, the configuration with capacity 2 and no worker, and the cache after
  \<^verbatim>\<open>Set(a)\<close>, \<^verbatim>\<open>Set(b)\<close>, \<^verbatim>\<open>Get(a)\<close>.\<close>

definition abc_heap :: heap where
  "abc_heap = [[65], [66], [67]]"

definition cap2 :: Config where
  "cap2 = \<lparr> MaxEntries = 2, CleanupInterval = 0 \<rparr>"

definition ab_cache :: cache where
  "ab_cache =
     \<lparr> maxEntries = 2, items = [(''b'', 1), (''a'', 0)], lru = [0, 1],
       elems = [\<lparr>key = ''a'', val = Some 3, expiresAt = 0, hasExpiry = False\<rparr>,
                \<lparr>key = ''b'', val = Some 4, expiresAt = 0, hasExpiry = False\<rparr>],
       cancelled = False, cleanupEvery = 0, closed = False \<rparr>"

text \<open>The configuration of \<^verbatim>\<open>TestTTL_LazyExpirationOnGet\<close>: capacity 10, no worker.\<close>

definition cap10 :: Config where
  "cap10 = \<lparr> MaxEntries = 10, CleanupInterval = 0 \<rparr>"
subsection \<open>Runs of operations\<close>

text \<open>The calls a client can make, and a tick of the maintenance worker; \<open>step\<close> is the
  effect of one of them on heap and cache, \<open>run\<close> that of a sequence. A call of
  \<^verbatim>\<open>Set\<close> that does not return has no successor state.\<close>

datatype operation =
    OpSet string slice int int
  | OpGet string int
  | OpDelete string
  | OpLen
  | OpKeys
  | OpClose
  | OpTick int

fun step :: "operation \<Rightarrow> heap \<times> cache \<Rightarrow> (heap \<times> cache) option" where
  "step (OpSet k v ttl now) hc = map_option snd (Set k v ttl now hc)"
| "step (OpGet k now) hc = Some (snd (Get k now hc))"
| "step (OpDelete k) hc = Some (fst hc, snd (Delete k (snd hc)))"
| "step OpLen hc = Some hc"
| "step OpKeys hc = Some hc"
| "step OpClose hc = Some (fst hc, snd (Close (snd hc)))"
| "step (OpTick now) hc = Some (fst hc, expiryTick now (snd hc))"

fun run :: "operation list \<Rightarrow> heap \<times> cache \<Rightarrow> (heap \<times> cache) option" where
  "run [] hc = Some hc"
| "run (x # xs) hc = (case step x hc of None \<Rightarrow> None | Some hc' \<Rightarrow> run xs hc')"

subsection \<open>Operations that neither write nor delete a key\<close>



subsection \<open>Recency of use\<close>

text \<open>The key an operation uses successfully (a \<^verbatim>\<open>Set\<close> on an open cache, a \<^verbatim>\<open>Get\<close>
  that finds its key); moving a key to the front of an order; and the order of all keys
  ever used in a run, most recently used first.\<close>

fun touched :: "operation \<Rightarrow> heap \<times> cache \<Rightarrow> string option" where
  "touched (OpSet k v ttl now) hc = (if closed (snd hc) then None else Some k)"
| "touched (OpGet k now) hc = (if snd (fst (Get k now hc)) then Some k else None)"
| "touched x hc = None"

fun promote :: "string option \<Rightarrow> string list \<Rightarrow> string list" where
  "promote None ks = ks"
| "promote (Some k) ks = k # filter (\<lambda>x. x \<noteq> k) ks"

fun recency :: "operation list \<Rightarrow> heap \<times> cache \<Rightarrow> string list \<Rightarrow> string list" where
  "recency [] hc ord = ord"
| "recency (x # xs) hc ord =
     (case step x hc of
        None \<Rightarrow> ord
      | Some hc' \<Rightarrow> recency xs hc' (promote (touched x hc) ord))"

subsection \<open>Heap consistency and what a caller sees\<close>

text \<open>Every stored value refers to an allocated array (in Go the cache cannot hold a
  dangling slice); and the bytes and the flag a caller reads off the result of
  \<^verbatim>\<open>Get\<close>.\<close>

definition vals_ok :: "heap \<Rightarrow> cache \<Rightarrow> bool" where
  "vals_ok h c \<longleftrightarrow>
     (\<forall>el \<in> set (lru c). case val (elems c ! el) of None \<Rightarrow> True | Some a \<Rightarrow> a < length h)"

definition got :: "(slice \<times> bool) \<times> heap \<times> cache \<Rightarrow> byte list \<times> bool" where
  "got r = (bytes_of (fst (snd r)) (fst (fst r)), snd (fst r))"

section \<open>Proofs\<close>

subsection \<open>Restriction and the invariant\<close>

lemma keep_fields [simp]:
  "items (keep P c) = filter (\<lambda>p. P (snd p)) (items c)"
  "lru (keep P c) = filter P (lru c)"
  "elems (keep P c) = elems c"
  "maxEntries (keep P c) = maxEntries c"
  "closed (keep P c) = closed c"
  "cancelled (keep P c) = cancelled c"
  "cleanupEvery (keep P c) = cleanupEvery c"
  by (simp_all add: keep_def)

lemma keep_keep: "keep P (keep Q c) = keep (\<lambda>x. Q x \<and> P x) c"
  by (simp add: keep_def)

lemma keep_cong:
  assumes "\<And>x. x \<in> set (lru c) \<union> snd ` set (items c) \<Longrightarrow> P x = Q x"
  shows "keep P c = keep Q c"
proof -
  have "filter P (lru c) = filter Q (lru c)"
    using assms by (intro filter_cong) auto
  moreover have "filter (\<lambda>p. P (snd p)) (items c) = filter (\<lambda>p. Q (snd p)) (items c)"
    using assms by (intro filter_cong) auto
  ultimately show ?thesis by (simp add: keep_def)
qed

lemma keep_all:
  assumes "\<And>x. x \<in> set (lru c) \<union> snd ` set (items c) \<Longrightarrow> P x"
  shows "keep P c = c"
proof -
  have "filter P (lru c) = lru c" using assms by (intro filter_True) auto
  moreover have "filter (\<lambda>p. P (snd p)) (items c) = items c"
    using assms by (intro filter_True) auto
  ultimately show ?thesis by (simp add: keep_def)
qed

lemma set_snd_filter:
  "set (map snd (filter (\<lambda>p. P (snd p)) xs)) = {x \<in> set (map snd xs). P x}"
  by (induction xs) auto

lemma cache_inv_keep:
  assumes "cache_inv c"
  shows "cache_inv (keep P c)"
proof -
  have 1: "distinct (map fst (items (keep P c)))"
    using assms by (simp add: cache_inv_def distinct_map_filter)
  have 2: "distinct (map snd (items (keep P c)))"
    using assms by (simp add: cache_inv_def distinct_map_filter)
  have 3: "distinct (lru (keep P c))"
    using assms by (simp add: cache_inv_def)
  have "set (map snd (items c)) = set (lru c)"
    using assms by (simp add: cache_inv_def)
  then have 4: "set (map snd (items (keep P c))) = set (lru (keep P c))"
    by (simp only: keep_fields set_snd_filter set_filter)
  have 5: "\<forall>p \<in> set (items (keep P c)).
      snd p < length (elems (keep P c)) \<and> key (elems (keep P c) ! snd p) = fst p"
    using assms by (simp add: cache_inv_def)
  show ?thesis
    unfolding cache_inv_def using 1 2 3 4 5 by blast
qed

lemma inv_length: "cache_inv c \<Longrightarrow> length (items c) = length (lru c)"
proof -
  assume a: "cache_inv c"
  then have "length (items c) = card (set (map snd (items c)))"
    unfolding cache_inv_def by (metis distinct_card length_map)
  also have "\<dots> = length (lru c)"
    using a unfolding cache_inv_def by (metis distinct_card)
  finally show ?thesis .
qed

lemma inv_lookup:
  assumes "cache_inv c" "lookup (items c) k = Some el"
  shows "(k, el) \<in> set (items c)" "el \<in> set (lru c)" "el < length (elems c)"
    "key (elems c ! el) = k"
proof -
  show m: "(k, el) \<in> set (items c)"
    using assms(2) by (simp add: lookup_def map_of_SomeD)
  then show "el \<in> set (lru c)"
    using assms(1) unfolding cache_inv_def by force
  show "el < length (elems c)" "key (elems c ! el) = k"
    using m assms(1) unfolding cache_inv_def by force+
qed

lemma inv_lru_key:
  assumes "cache_inv c" "el \<in> set (lru c)"
  shows "lookup (items c) (key (elems c ! el)) = Some el"
proof -
  from assms obtain p where p: "p \<in> set (items c)" "snd p = el"
    unfolding cache_inv_def by (metis (no_types, lifting) imageE list.set_map)
  then have "key (elems c ! el) = fst p" using assms(1) unfolding cache_inv_def by blast
  moreover have "map_of (items c) (fst p) = Some (snd p)"
    using assms(1) p(1) unfolding cache_inv_def by (metis map_of_is_SomeI prod.collapse)
  ultimately show ?thesis using p(2) by (simp add: lookup_def)
qed

lemma inv_lookup_None:
  assumes "cache_inv c" "lookup (items c) k = None" "el \<in> set (lru c)"
  shows "key (elems c ! el) \<noteq> k"
  using inv_lru_key[OF assms(1,3)] assms(2) by auto

lemma remove1_filter: "distinct xs \<Longrightarrow> remove1 x xs = filter (\<lambda>y. y \<noteq> x) xs"
proof (induction xs)
  case Nil
  then show ?case by simp
next
  case (Cons a xs)
  show ?case
  proof (cases "a = x")
    case True
    then have "x \<notin> set xs" using Cons.prems by simp
    then have "filter (\<lambda>y. y \<noteq> x) xs = xs" by (intro filter_True) auto
    then show ?thesis using True by simp
  next
    case False
    then show ?thesis using Cons by simp
  qed
qed

lemma deleteLocked_keep:
  assumes "cache_inv c"
  shows "deleteLocked k c = keep (\<lambda>el. key (elems c ! el) \<noteq> k) c"
proof (cases "lookup (items c) k")
  case None
  have "keep (\<lambda>el. key (elems c ! el) \<noteq> k) c = c"
  proof (rule keep_all)
    fix x assume "x \<in> set (lru c) \<union> snd ` set (items c)"
    then have "x \<in> set (lru c)" using assms unfolding cache_inv_def by auto
    then show "key (elems c ! x) \<noteq> k" using inv_lookup_None[OF assms None] by blast
  qed
  then show ?thesis using None by (simp add: deleteLocked_def)
next
  case (Some el)
  note f = inv_lookup[OF assms Some]
  have d: "distinct (lru c)" using assms unfolding cache_inv_def by blast
  have eq: "\<And>x. x \<in> set (lru c) \<Longrightarrow> (key (elems c ! x) \<noteq> k) = (x \<noteq> el)"
  proof -
    fix x assume x: "x \<in> set (lru c)"
    have l: "lookup (items c) (key (elems c ! x)) = Some x" by (rule inv_lru_key[OF assms x])
    show "(key (elems c ! x) \<noteq> k) = (x \<noteq> el)"
    proof (cases "x = el")
      case True then show ?thesis using f(4) by simp
    next
      case False
      then have "key (elems c ! x) \<noteq> k" using l Some by auto
      then show ?thesis using False by simp
    qed
  qed
  have "remove1 el (lru c) = filter (\<lambda>x. x \<noteq> el) (lru c)"
    using d by (rule remove1_filter)
  also have "\<dots> = filter (\<lambda>el. key (elems c ! el) \<noteq> k) (lru c)"
    using eq by (intro filter_cong) auto
  finally have 1: "remove1 el (lru c) = filter (\<lambda>el. key (elems c ! el) \<noteq> k) (lru c)" .
  have 2: "delete k (items c) = filter (\<lambda>p. key (elems c ! snd p) \<noteq> k) (items c)"
  proof -
    have "\<And>p. p \<in> set (items c) \<Longrightarrow> key (elems c ! snd p) = fst p"
      using assms unfolding cache_inv_def by blast
    then show ?thesis unfolding delete_def by (intro filter_cong) auto
  qed
  show ?thesis using Some 1 2 by (simp add: deleteLocked_def keep_def Remove_def)
qed

subsection \<open>Deletion, sweep and the eviction loop\<close>

lemma inv_mem_lookup:
  assumes "cache_inv c" "(k, el) \<in> set (items c)"
  shows "lookup (items c) k = Some el"
  using assms unfolding cache_inv_def lookup_def by (simp add: map_of_is_SomeI)

lemma inv_snd_items: "cache_inv c \<Longrightarrow> snd ` set (items c) = set (lru c)"
  unfolding cache_inv_def by simp

lemma inv_key_eq:
  assumes "cache_inv c" "(k, el) \<in> set (items c)" "x \<in> set (lru c)"
  shows "(key (elems c ! x) = k) = (x = el)"
proof -
  have l: "lookup (items c) (key (elems c ! x)) = Some x" by (rule inv_lru_key[OF assms(1,3)])
  have m: "lookup (items c) k = Some el" by (rule inv_mem_lookup[OF assms(1,2)])
  show ?thesis
  proof (cases "x = el")
    case True
    then show ?thesis using inv_lookup(4)[OF assms(1) m] by simp
  next
    case False
    then have "key (elems c ! x) \<noteq> k" using l m by auto
    then show ?thesis using False by simp
  qed
qed

lemma deleteLocked_keep_el:
  assumes "cache_inv c" "(k, el) \<in> set (items c)"
  shows "c\<lparr>items := delete k (items c), lru := Remove el (lru c)\<rparr> = keep (\<lambda>x. x \<noteq> el) c"
proof -
  have "c\<lparr>items := delete k (items c), lru := Remove el (lru c)\<rparr> = deleteLocked k c"
    using inv_mem_lookup[OF assms] by (simp add: deleteLocked_def)
  also have "\<dots> = keep (\<lambda>x. key (elems c ! x) \<noteq> k) c"
    by (rule deleteLocked_keep[OF assms(1)])
  also have "\<dots> = keep (\<lambda>x. x \<noteq> el) c"
  proof (rule keep_cong)
    fix x assume "x \<in> set (lru c) \<union> snd ` set (items c)"
    then have "x \<in> set (lru c)" using inv_snd_items[OF assms(1)] by blast
    then show "(key (elems c ! x) \<noteq> k) = (x \<noteq> el)"
      using inv_key_eq[OF assms] by simp
  qed
  finally show ?thesis .
qed

lemma sweep_keep:
  assumes "cache_inv c" "distinct its" "set its \<subseteq> set (items c)"
  shows "snd (sweep its now c) =
           keep (\<lambda>el. \<not> (el \<in> snd ` set its \<and> expired (elems c ! el) now)) c"
  using assms
proof (induction its arbitrary: c)
  case Nil
  have "keep (\<lambda>el. \<not> (el \<in> snd ` set [] \<and> expired (elems c ! el) now)) c = c"
    by (rule keep_all) simp
  then show ?case by simp
next
  case (Cons p rest)
  obtain k el where p: "p = (k, el)" by (cases p)
  have mem: "(k, el) \<in> set (items c)" using Cons.prems(3) p by simp
  show ?case
  proof (cases "expired (elems c ! el) now")
    case False
    have ih: "snd (sweep rest now c) =
        keep (\<lambda>x. \<not> (x \<in> snd ` set rest \<and> expired (elems c ! x) now)) c"
      using Cons.IH[of c] Cons.prems by simp
    have "keep (\<lambda>x. \<not> (x \<in> snd ` set rest \<and> expired (elems c ! x) now)) c =
          keep (\<lambda>x. \<not> (x \<in> snd ` set (p # rest) \<and> expired (elems c ! x) now)) c"
      by (rule keep_cong) (use False p in auto)
    then show ?thesis using False ih p by simp
  next
    case True
    define c1 where "c1 = c\<lparr>items := delete k (items c), lru := Remove el (lru c)\<rparr>"
    have c1: "c1 = keep (\<lambda>x. x \<noteq> el) c"
      unfolding c1_def by (rule deleteLocked_keep_el[OF Cons.prems(1) mem])
    have inv1: "cache_inv c1" unfolding c1 by (rule cache_inv_keep[OF Cons.prems(1)])
    have d: "distinct rest" "p \<notin> set rest" using Cons.prems(2) by simp_all
    have ds: "distinct (map snd (items c))" using Cons.prems(1) unfolding cache_inv_def by blast
    have sub: "set rest \<subseteq> set (items c1)"
    proof
      fix q assume q: "q \<in> set rest"
      then have qi: "q \<in> set (items c)" using Cons.prems(3) by auto
      have "q \<noteq> (k, el)" using q d(2) p by auto
      then have "snd q \<noteq> el"
        using ds qi mem by (metis distinct_map inj_onD snd_conv)
      then show "q \<in> set (items c1)" using qi unfolding c1 by simp
    qed
    have ih: "snd (sweep rest now c1) =
        keep (\<lambda>x. \<not> (x \<in> snd ` set rest \<and> expired (elems c1 ! x) now)) c1"
      by (rule Cons.IH[OF inv1 d(1) sub])
    have e1: "elems c1 = elems c" unfolding c1 by simp
    have "snd (sweep (p # rest) now c) = snd (sweep rest now c1)"
      using True p by (simp add: c1_def Let_def)
    also have "\<dots> = keep (\<lambda>x. x \<noteq> el \<and> \<not> (x \<in> snd ` set rest \<and> expired (elems c ! x) now)) c"
      unfolding ih e1 unfolding c1 by (rule keep_keep)
    also have "\<dots> = keep (\<lambda>x. \<not> (x \<in> snd ` set (p # rest) \<and> expired (elems c ! x) now)) c"
      by (rule keep_cong) (use True p in auto)
    finally show ?thesis .
  qed
qed

lemma deleteExpiredLocked_keep:
  assumes "cache_inv c"
  shows "snd (deleteExpiredLocked now c) = keep (\<lambda>el. \<not> expired (elems c ! el) now) c"
proof -
  have d: "distinct (items c)"
    using assms unfolding cache_inv_def by (metis distinct_map)
  have "snd (deleteExpiredLocked now c) =
      keep (\<lambda>el. \<not> (el \<in> snd ` set (items c) \<and> expired (elems c ! el) now)) c"
    unfolding deleteExpiredLocked_def by (rule sweep_keep[OF assms d]) simp
  also have "\<dots> = keep (\<lambda>el. \<not> expired (elems c ! el) now) c"
    by (rule keep_cong) (use inv_snd_items[OF assms] in auto)
  finally show ?thesis .
qed

lemma evictLoop_keep:
  assumes "cache_inv c"
  shows "evictLoop c = Some (keep (\<lambda>el. el \<in> set (take (nat (maxEntries c)) (lru c))) c)"
  using assms
proof (induction "length (lru c)" arbitrary: c rule: less_induct)
  case less
  note inv = less.prems
  have len: "length (items c) = length (lru c)" by (rule inv_length[OF inv])
  show ?case
  proof (cases "int (length (items c)) > maxEntries c")
    case False
    then have "take (nat (maxEntries c)) (lru c) = lru c" using len by simp
    then have "keep (\<lambda>el. el \<in> set (take (nat (maxEntries c)) (lru c))) c = c"
      using inv_snd_items[OF inv] by (intro keep_all) auto
    then show ?thesis using False by (subst evictLoop.simps) simp
  next
    case True
    show ?thesis
    proof (cases "lru c = []")
      case Nil: True
      then have "items c = []" using len by simp
      then have "keep (\<lambda>el. el \<in> set (take (nat (maxEntries c)) (lru c))) c = c"
        using Nil by (intro keep_all) auto
      then show ?thesis using \<open>int (length (items c)) > maxEntries c\<close> Nil
        by (subst evictLoop.simps) (simp add: Back_def)
    next
      case False
      define el where "el = last (lru c)"
      define k where "k = key (elems c ! el)"
      have elin: "el \<in> set (lru c)" using False unfolding el_def by simp
      have mem: "(k, el) \<in> set (items c)"
        using inv_lookup(1)[OF inv inv_lru_key[OF inv elin]] unfolding k_def .
      define c1 where "c1 = deleteLocked k c"
      have c1: "c1 = keep (\<lambda>x. x \<noteq> el) c"
        unfolding c1_def using deleteLocked_keep_el[OF inv mem] inv_mem_lookup[OF inv mem]
        by (simp add: deleteLocked_def)
      have inv1: "cache_inv c1" unfolding c1 by (rule cache_inv_keep[OF inv])
      have dl: "distinct (lru c)" using inv unfolding cache_inv_def by blast
      have lru1: "lru c1 = butlast (lru c)"
      proof -
        have "lru c1 = remove1 el (lru c)" unfolding c1 using remove1_filter[OF dl] by simp
        also have "\<dots> = butlast (lru c)"
          using False dl unfolding el_def
          by (metis append_butlast_last_id distinct_append not_distinct_conv_prefix remove1_append remove1.simps(2) append_Nil2 remove1_idem disjoint_iff list.set_intros(1))
        finally show ?thesis .
      qed
      have lt: "length (lru c1) < length (lru c)" using lru1 False by simp
      have m1: "maxEntries c1 = maxEntries c" unfolding c1 by simp
      have ih: "evictLoop c1 = Some (keep (\<lambda>x. x \<in> set (take (nat (maxEntries c)) (lru c1))) c1)"
        using less.hyps[OF lt inv1] m1 by simp
      have tk: "take (nat (maxEntries c)) (butlast (lru c)) = take (nat (maxEntries c)) (lru c)"
      proof (rule take_butlast)
        have "0 < length (lru c)" using False by simp
        then show "nat (maxEntries c) < length (lru c)" using True len by arith
      qed
      have "evictLoop c = evictLoop c1"
        using True False by (subst evictLoop.simps) (simp add: Back_def c1_def k_def el_def)
      also have "\<dots> = Some (keep (\<lambda>x. x \<noteq> el \<and> x \<in> set (take (nat (maxEntries c)) (lru c))) c)"
        unfolding ih lru1 tk unfolding c1 by (simp add: keep_keep)
      also have "keep (\<lambda>x. x \<noteq> el \<and> x \<in> set (take (nat (maxEntries c)) (lru c))) c =
          keep (\<lambda>x. x \<in> set (take (nat (maxEntries c)) (lru c))) c"
      proof (rule keep_cong)
        fix x assume "x \<in> set (lru c) \<union> snd ` set (items c)"
        have "el \<notin> set (butlast (lru c))"
          using dl False unfolding el_def
          by (metis append_butlast_last_id distinct_append disjoint_iff list.set_intros(1))
        then have "el \<notin> set (take (nat (maxEntries c)) (lru c))"
          using tk by (metis in_set_takeD)
        then show "(x \<noteq> el \<and> x \<in> set (take (nat (maxEntries c)) (lru c))) =
            (x \<in> set (take (nat (maxEntries c)) (lru c)))" by auto
      qed
      finally show ?thesis .
    qed
  qed
qed

subsection \<open>The write of Set and capacity enforcement\<close>

lemma store_Some:
  assumes "lookup (items c) k = Some el"
  shows "store k v ttl now (h, c) =
     (snd (cloneBytes v h),
      c\<lparr>elems := (elems c)[el := (elems c ! el)\<lparr>val := fst (cloneBytes v h),
            hasExpiry := (ttl > 0), expiresAt := expiry_of ttl now\<rparr>],
        lru := MoveToFront el (lru c)\<rparr>)"
  using assms by (simp add: store_def Let_def expiry_of_def)

lemma store_None:
  assumes "lookup (items c) k = None"
  shows "store k v ttl now (h, c) =
     (snd (cloneBytes v h),
      c\<lparr>elems := elems c @ [\<lparr>key = k, val = fst (cloneBytes v h),
            expiresAt = expiry_of ttl now, hasExpiry = (ttl > 0)\<rparr>],
        lru := PushFront (length (elems c)) (lru c),
        items := insert_new k (length (elems c)) (items c)\<rparr>)"
  using assms by (simp add: store_def Let_def expiry_of_def)

lemma store_heap: "fst (store k v ttl now (h, c)) = snd (cloneBytes v h)"
  by (cases "lookup (items c) k") (simp_all add: store_Some store_None)

lemma store_flags:
  "maxEntries (snd (store k v ttl now (h, c))) = maxEntries c"
  "closed (snd (store k v ttl now (h, c))) = closed c"
  "cancelled (snd (store k v ttl now (h, c))) = cancelled c"
  "cleanupEvery (snd (store k v ttl now (h, c))) = cleanupEvery c"
  by (cases "lookup (items c) k"; simp add: store_Some store_None)+

lemma inv_fresh:
  assumes "cache_inv c"
  shows "length (elems c) \<notin> set (lru c)"
proof
  assume "length (elems c) \<in> set (lru c)"
  then have "lookup (items c) (key (elems c ! length (elems c))) = Some (length (elems c))"
    by (rule inv_lru_key[OF assms])
  then have "length (elems c) < length (elems c)" by (rule inv_lookup(3)[OF assms])
  then show False by simp
qed

lemma inv_lru_bound: "cache_inv c \<Longrightarrow> el \<in> set (lru c) \<Longrightarrow> el < length (elems c)"
  using inv_lookup(3) inv_lru_key by blast

lemma store_lru:
  assumes "cache_inv c"
  shows "lru (snd (store k v ttl now (h, c))) = handle_of k c # remove1 (handle_of k c) (lru c)"
proof (cases "lookup (items c) k")
  case None
  have "remove1 (length (elems c)) (lru c) = lru c"
    using inv_fresh[OF assms] by (simp add: remove1_idem)
  then show ?thesis using None by (simp add: store_None handle_of_def PushFront_def)
next
  case (Some el)
  then show ?thesis using inv_lookup(2)[OF assms Some]
    by (simp add: store_Some handle_of_def MoveToFront_def)
qed

lemma store_items:
  "items (snd (store k v ttl now (h, c))) =
     (if lookup (items c) k = None then (k, handle_of k c) # items c else items c)"
  by (cases "lookup (items c) k") (simp_all add: store_Some store_None handle_of_def insert_new_def)

lemma store_length: "length (elems c) \<le> length (elems (snd (store k v ttl now (h, c))))"
  by (cases "lookup (items c) k") (simp_all add: store_Some store_None)

lemma store_entry_conj:
  assumes "cache_inv c"
  shows "handle_of k c < length (elems (snd (store k v ttl now (h, c)))) \<and>
    key (elems (snd (store k v ttl now (h, c))) ! handle_of k c) = k \<and>
    val (elems (snd (store k v ttl now (h, c))) ! handle_of k c) = fst (cloneBytes v h) \<and>
    hasExpiry (elems (snd (store k v ttl now (h, c))) ! handle_of k c) = (ttl > 0) \<and>
    expiresAt (elems (snd (store k v ttl now (h, c))) ! handle_of k c) = expiry_of ttl now"
proof (cases "lookup (items c) k")
  case None
  then show ?thesis by (simp add: store_None handle_of_def)
next
  case (Some el)
  then show ?thesis using inv_lookup(3,4)[OF assms Some]
    by (simp add: store_Some handle_of_def)
qed

lemma store_entry:
  assumes "cache_inv c"
  shows "handle_of k c < length (elems (snd (store k v ttl now (h, c))))"
    "key (elems (snd (store k v ttl now (h, c))) ! handle_of k c) = k"
    "val (elems (snd (store k v ttl now (h, c))) ! handle_of k c) = fst (cloneBytes v h)"
    "hasExpiry (elems (snd (store k v ttl now (h, c))) ! handle_of k c) = (ttl > 0)"
    "expiresAt (elems (snd (store k v ttl now (h, c))) ! handle_of k c) = expiry_of ttl now"
  using store_entry_conj[OF assms, of k v ttl now h] by blast+

lemma store_other:
  assumes "el < length (elems c)" "el \<noteq> handle_of k c"
  shows "elems (snd (store k v ttl now (h, c))) ! el = elems c ! el"
proof (cases "lookup (items c) k")
  case None
  then show ?thesis using assms by (simp add: store_None nth_append)
next
  case (Some a)
  then show ?thesis using assms by (simp add: store_Some handle_of_def)
qed

lemma store_key:
  assumes "cache_inv c" "el < length (elems c)"
  shows "key (elems (snd (store k v ttl now (h, c))) ! el) = key (elems c ! el)"
proof (cases "el = handle_of k c")
  case False
  then show ?thesis using store_other[OF assms(2)] by simp
next
  case True
  show ?thesis
  proof (cases "lookup (items c) k")
    case None
    then show ?thesis using True assms(2) by (simp add: handle_of_def)
  next
    case (Some a)
    then show ?thesis using True assms(2) inv_lookup(4)[OF assms(1) Some]
      by (simp add: store_Some handle_of_def)
  qed
qed

lemma cache_inv_store:
  assumes "cache_inv c"
  shows "cache_inv (snd (store k v ttl now (h, c)))"
proof -
  let ?s = "snd (store k v ttl now (h, c))"
  let ?el = "handle_of k c"
  have dk: "distinct (map fst (items c))" and ds: "distinct (map snd (items c))"
    and dl: "distinct (lru c)" and eq: "set (map snd (items c)) = set (lru c)"
    and ent: "\<And>p. p \<in> set (items c) \<Longrightarrow> snd p < length (elems c) \<and> key (elems c ! snd p) = fst p"
    using assms unfolding cache_inv_def by blast+
  have lru: "lru ?s = ?el # remove1 ?el (lru c)" by (rule store_lru[OF assms])
  have 3: "distinct (lru ?s)" unfolding lru using dl by simp
  have 5: "\<forall>p \<in> set (items ?s). snd p < length (elems ?s) \<and> key (elems ?s ! snd p) = fst p"
  proof
    fix p assume p: "p \<in> set (items ?s)"
    show "snd p < length (elems ?s) \<and> key (elems ?s ! snd p) = fst p"
    proof (cases "p \<in> set (items c)")
      case True
      then show ?thesis
        using ent[OF True] store_key[OF assms, of "snd p" k v ttl now h]
          store_length[of c k v ttl now h] by simp
    next
      case False
      then have "p = (k, ?el)" using p unfolding store_items by (auto split: if_splits)
      then show ?thesis using store_entry(1,2)[OF assms, of k v ttl now h] by simp
    qed
  qed
  show ?thesis
  proof (cases "lookup (items c) k")
    case None
    then have el: "?el = length (elems c)" by (simp add: handle_of_def)
    have it: "items ?s = (k, ?el) # items c" using None by (simp add: store_items)
    have "k \<notin> fst ` set (items c)"
      using None by (simp add: lookup_def map_of_eq_None_iff)
    then have 1: "distinct (map fst (items ?s))" unfolding it using dk by simp
    have nin: "?el \<notin> set (lru c)" unfolding el by (rule inv_fresh[OF assms])
    then have 2: "distinct (map snd (items ?s))" unfolding it using ds eq by simp
    have "remove1 ?el (lru c) = lru c" using nin by (simp add: remove1_idem)
    then have 4: "set (map snd (items ?s)) = set (lru ?s)" unfolding it lru using eq by simp
    show ?thesis unfolding cache_inv_def using 1 2 3 4 5 by blast
  next
    case (Some el)
    then have it: "items ?s = items c" by (simp add: store_items)
    have "?el \<in> set (lru c)" using inv_lookup(2)[OF assms Some] Some by (simp add: handle_of_def)
    then have 4: "set (map snd (items ?s)) = set (lru ?s)"
      unfolding it lru using eq dl by auto
    show ?thesis unfolding cache_inv_def using dk ds 3 4 5 unfolding it by blast
  qed
qed

lemma store_lookup:
  assumes "cache_inv c"
  shows "lookup (items (snd (store k v ttl now (h, c)))) k = Some (handle_of k c)"
proof (cases "lookup (items c) k")
  case None
  then show ?thesis by (simp add: store_items lookup_def)
next
  case (Some el)
  then show ?thesis by (simp add: store_items handle_of_def)
qed

lemma filter_take_prefix:
  "distinct xs \<Longrightarrow> filter (\<lambda>x. x \<in> set (take n xs)) xs = take n xs"
proof (induction xs arbitrary: n)
  case Nil
  then show ?case by simp
next
  case (Cons a xs)
  show ?case
  proof (cases n)
    case 0
    then show ?thesis by simp
  next
    case (Suc m)
    have "filter (\<lambda>x. x \<in> set (take n (a # xs))) xs = filter (\<lambda>x. x \<in> set (take m xs)) xs"
      using Cons.prems Suc by (intro filter_cong) auto
    also have "\<dots> = take m xs" using Cons.IH Cons.prems by simp
    finally show ?thesis using Suc by simp
  qed
qed

lemma filter_take_filter:
  assumes "distinct xs"
  shows "filter (\<lambda>x. x \<in> set (take n (filter P xs))) xs = take n (filter P xs)"
proof -
  have "filter (\<lambda>x. x \<in> set (take n (filter P xs))) xs =
        filter (\<lambda>x. P x \<and> x \<in> set (take n (filter P xs))) xs"
    by (intro filter_cong) (auto dest: in_set_takeD)
  also have "\<dots> = filter (\<lambda>x. x \<in> set (take n (filter P xs))) (filter P xs)"
    by (simp add: conj_commute)
  also have "\<dots> = take n (filter P xs)"
    using assms by (intro filter_take_prefix) simp
  finally show ?thesis .
qed

lemma evictIfNeededLocked_enforce:
  assumes "cache_inv c"
  shows "evictIfNeededLocked now c = Some (enforce now c)"
proof (cases "maxEntries c \<le> 0")
  case True
  then show ?thesis by (simp add: evictIfNeededLocked_def enforce_def)
next
  case False
  define c2 where "c2 = snd (deleteExpiredLocked now c)"
  have c2: "c2 = keep (live c now) c"
    unfolding c2_def live_def by (rule deleteExpiredLocked_keep[OF assms])
  have inv2: "cache_inv c2" unfolding c2 by (rule cache_inv_keep[OF assms])
  have "evictLoop c2 = Some (keep (\<lambda>el. el \<in> set (take (nat (maxEntries c2)) (lru c2))) c2)"
    by (rule evictLoop_keep[OF inv2])
  also have "keep (\<lambda>el. el \<in> set (take (nat (maxEntries c2)) (lru c2))) c2 =
      keep (\<lambda>el. live c now el \<and> el \<in> set (take (nat (maxEntries c)) (filter (live c now) (lru c)))) c"
    unfolding c2 by (simp add: keep_keep)
  also have "\<dots> = keep (\<lambda>el. el \<in> set (take (nat (maxEntries c)) (filter (live c now) (lru c)))) c"
    by (rule keep_cong) (auto dest: in_set_takeD)
  finally show ?thesis using False by (simp add: evictIfNeededLocked_def enforce_def c2_def)
qed

lemma cache_inv_enforce: "cache_inv c \<Longrightarrow> cache_inv (enforce now c)"
  by (simp add: enforce_def cache_inv_keep)

lemma enforce_lru:
  assumes "cache_inv c" "maxEntries c > 0"
  shows "lru (enforce now c) = take (nat (maxEntries c)) (filter (live c now) (lru c))"
proof -
  have "distinct (lru c)" using assms(1) unfolding cache_inv_def by blast
  then show ?thesis using assms(2) by (simp add: enforce_def filter_take_filter)
qed

lemma enforce_fields:
  "elems (enforce now c) = elems c"
  "maxEntries (enforce now c) = maxEntries c"
  "closed (enforce now c) = closed c"
  "cancelled (enforce now c) = cancelled c"
  "cleanupEvery (enforce now c) = cleanupEvery c"
  by (simp_all add: enforce_def)

lemma enforce_items:
  "maxEntries c > 0 \<Longrightarrow>
   items (enforce now c) =
     filter (\<lambda>p. snd p \<in> set (take (nat (maxEntries c)) (filter (live c now) (lru c)))) (items c)"
  by (simp add: enforce_def)

lemma Set_open:
  assumes "cache_inv c" "\<not> closed c"
  shows "Set k v ttl now (h, c) =
     Some (None, snd (cloneBytes v h), enforce now (snd (store k v ttl now (h, c))))"
proof -
  have "evictIfNeededLocked now (snd (store k v ttl now (h, c))) =
      Some (enforce now (snd (store k v ttl now (h, c))))"
    by (rule evictIfNeededLocked_enforce[OF cache_inv_store[OF assms(1)]])
  then show ?thesis using assms(2) by (simp add: Set_def Let_def store_heap)
qed

subsection \<open>Keys, Get and the byte heap\<close>

lemma inv_key_inj: 
  assumes "cache_inv c"
  shows "inj_on (\<lambda>el. key (elems c ! el)) (set (lru c))"
proof (rule inj_onI)
  fix x y assume x: "x \<in> set (lru c)" and y: "y \<in> set (lru c)"
    and e: "key (elems c ! x) = key (elems c ! y)"
  have 1: "lookup (items c) (key (elems c ! x)) = Some x" by (rule inv_lru_key[OF assms x])
  have 2: "lookup (items c) (key (elems c ! y)) = Some y" by (rule inv_lru_key[OF assms y])
  have "Some x = Some y" using 1 2 unfolding e by (rule trans[OF sym])
  then show "x = y" by (rule option.inject[THEN iffD1])
qed

lemma Keys_distinct: "cache_inv c \<Longrightarrow> distinct (Keys c)"
  unfolding Keys_def using inv_key_inj[of c]
  by (simp add: distinct_map cache_inv_def)

lemma Keys_set:
  assumes "cache_inv c"
  shows "set (Keys c) = fst ` set (items c)"
proof -
  have "\<And>p. p \<in> set (items c) \<Longrightarrow> key (elems c ! snd p) = fst p"
    using assms unfolding cache_inv_def by blast
  then have "(\<lambda>p. key (elems c ! snd p)) ` set (items c) = fst ` set (items c)"
    by (intro image_cong) auto
  moreover have "set (Keys c) = (\<lambda>el. key (elems c ! el)) ` (snd ` set (items c))"
    unfolding Keys_def using inv_snd_items[OF assms] by simp
  ultimately show ?thesis by (simp add: image_image)
qed

lemma Keys_lookup:
  assumes "cache_inv c"
  shows "k \<in> set (Keys c) \<longleftrightarrow> lookup (items c) k \<noteq> None"
  unfolding Keys_set[OF assms] lookup_def by (simp add: map_of_eq_None_iff)

lemma filter_map_sub:
  assumes "distinct (map f xs)"
  shows "filter (\<lambda>y. y \<in> set (map f (filter P xs))) (map f xs) = map f (filter P xs)"
proof -
  have inj: "inj_on f (set xs)" using assms by (simp add: distinct_map)
  have "filter (\<lambda>y. y \<in> set (map f (filter P xs))) (map f xs) =
        map f (filter (\<lambda>x. f x \<in> f ` {x \<in> set xs. P x}) xs)"
    by (simp add: filter_map comp_def)
  also have "filter (\<lambda>x. f x \<in> f ` {x \<in> set xs. P x}) xs = filter P xs"
  proof (rule filter_cong[OF refl])
    fix x assume x: "x \<in> set xs"
    show "(f x \<in> f ` {x \<in> set xs. P x}) = P x"
      using inj x by (auto dest: inj_onD)
  qed
  finally show ?thesis .
qed

lemma Keys_keep: "Keys (keep P c) = map (\<lambda>el. key (elems c ! el)) (filter P (lru c))"
  by (simp add: Keys_def)

lemma Keys_keep_sub:
  assumes "cache_inv c"
  shows "Keys (keep P c) = filter (\<lambda>x. x \<in> set (Keys (keep P c))) (Keys c)"
proof -
  have d: "distinct (map (\<lambda>el. key (elems c ! el)) (lru c))"
    using Keys_distinct[OF assms] by (simp add: Keys_def)
  show ?thesis unfolding Keys_keep unfolding Keys_def by (rule filter_map_sub[OF d, symmetric])
qed

lemma Keys_remove:
  assumes "cache_inv c" "lookup (items c) k = Some el"
  shows "map (\<lambda>x. key (elems c ! x)) (remove1 el (lru c)) = remove1 k (Keys c)"
proof -
  have dl: "distinct (lru c)" using assms(1) unfolding cache_inv_def by blast
  have mem: "(k, el) \<in> set (items c)" by (rule inv_lookup(1)[OF assms])
  have "remove1 k (Keys c) = filter (\<lambda>y. y \<noteq> k) (Keys c)"
    by (rule remove1_filter[OF Keys_distinct[OF assms(1)]])
  also have "\<dots> = map (\<lambda>x. key (elems c ! x)) (filter (\<lambda>x. key (elems c ! x) \<noteq> k) (lru c))"
    by (simp add: Keys_def filter_map comp_def)
  also have "filter (\<lambda>x. key (elems c ! x) \<noteq> k) (lru c) = filter (\<lambda>x. x \<noteq> el) (lru c)"
    using inv_key_eq[OF assms(1) mem] by (intro filter_cong) auto
  also have "\<dots> = remove1 el (lru c)" by (rule remove1_filter[OF dl, symmetric])
  finally show ?thesis by simp
qed

lemma Get_absent:
  "lookup (items c) k = None \<Longrightarrow> Get k now (h, c) = ((None, False), h, c)"
  by (simp add: Get_def)

lemma Get_expired:
  "lookup (items c) k = Some el \<Longrightarrow> expired (elems c ! el) now \<Longrightarrow>
   Get k now (h, c) = ((None, False), h, deleteLocked k c)"
  by (simp add: Get_def deleteIfExpiredLocked_def)

lemma Get_live:
  "lookup (items c) k = Some el \<Longrightarrow> \<not> expired (elems c ! el) now \<Longrightarrow>
   Get k now (h, c) =
     ((fst (cloneBytes (val (elems c ! el)) h), True),
      snd (cloneBytes (val (elems c ! el)) h),
      c\<lparr>lru := MoveToFront el (lru c)\<rparr>)"
  by (simp add: Get_def Let_def)

lemma deleteLocked_Some:
  "lookup (items c) k = Some el \<Longrightarrow>
   deleteLocked k c = c\<lparr>items := delete k (items c), lru := Remove el (lru c)\<rparr>"
  by (simp add: deleteLocked_def)

lemma lookup_delete: "lookup (delete k m) k = None"
  unfolding lookup_def delete_def by (induction m) auto

lemma lookup_delete_other: "k' \<noteq> k \<Longrightarrow> lookup (delete k m) k' = lookup m k'"
  unfolding lookup_def delete_def by (induction m) auto

lemma cache_inv_deleteLocked: "cache_inv c \<Longrightarrow> cache_inv (deleteLocked k c)"
  by (simp add: deleteLocked_keep cache_inv_keep)

lemma cloneBytes_bytes: "bytes_of (snd (cloneBytes v h)) (fst (cloneBytes v h)) = bytes_of h v"
  by (cases v) (simp_all add: cloneBytes_def bytes_of_def load_def)

lemma cloneBytes_frame: "a < length h \<Longrightarrow> load (snd (cloneBytes v h)) a = load h a"
  by (cases v) (simp_all add: cloneBytes_def load_def nth_append)

lemma cloneBytes_fresh: "fst (cloneBytes v h) = Some a \<Longrightarrow> a = length h \<and> v \<noteq> None"
  by (cases v) (simp_all add: cloneBytes_def)

lemma cloneBytes_nil: "(fst (cloneBytes v h) = None) = (v = None)"
  by (cases v) (simp_all add: cloneBytes_def)

lemma cache_inv_touch:
  assumes "cache_inv c" "el \<in> set (lru c)"
  shows "cache_inv (c\<lparr>lru := el # remove1 el (lru c)\<rparr>)"
proof -
  have "distinct (lru c)" using assms(1) unfolding cache_inv_def by blast
  moreover have "set (el # remove1 el (lru c)) = set (lru c)"
    using assms(2) calculation by auto
  ultimately show ?thesis using assms(1) unfolding cache_inv_def by simp
qed

lemma Get_expired_effect:
  assumes "cache_inv c" and l: "lookup (items c) k = Some el"
    and x: "expired (elems c ! el) now"
  shows "\<exists>c'. Get k now (h, c) = ((None, False), h, c') \<and>
          lookup (items c') k = None \<and> items c' = delete k (items c) \<and>
          lru c' = remove1 el (lru c) \<and> el \<notin> set (lru c') \<and>
          Keys c' = remove1 k (Keys c) \<and> k \<notin> set (Keys c') \<and>
          elems c' = elems c \<and> cache_inv c'"
proof -
  let ?c = "deleteLocked k c"
  have g: "Get k now (h, c) = ((None, False), h, ?c)" by (rule Get_expired[OF l x])
  have d: "?c = c\<lparr>items := delete k (items c), lru := Remove el (lru c)\<rparr>"
    by (rule deleteLocked_Some[OF l])
  have dl: "distinct (lru c)" using assms(1) unfolding cache_inv_def by blast
  have 1: "lookup (items ?c) k = None" unfolding d by (simp add: lookup_delete)
  have 2: "items ?c = delete k (items c)" unfolding d by simp
  have 3: "lru ?c = remove1 el (lru c)" unfolding d by (simp add: Remove_def)
  have 4: "el \<notin> set (lru ?c)" unfolding 3 using dl by simp
  have 5: "elems ?c = elems c" unfolding d by simp
  have 6: "Keys ?c = remove1 k (Keys c)"
    unfolding Keys_def 3 5 using Keys_remove[OF assms(1) l] by (simp add: Keys_def)
  have 7: "k \<notin> set (Keys ?c)" unfolding 6 using Keys_distinct[OF assms(1)] by simp
  have 8: "cache_inv ?c" by (rule cache_inv_deleteLocked[OF assms(1)])
  show ?thesis
    by (rule exI[of _ "deleteLocked k c"]) (intro conjI g 1 2 3 4 5 6 7 8)
qed

lemma Get_live_effect:
  assumes "cache_inv c" and l: "lookup (items c) k = Some el"
    and x: "\<not> expired (elems c ! el) now"
  shows "\<exists>v' h' c'. Get k now (h, c) = ((v', True), h', c') \<and>
          items c' = items c \<and> elems c' = elems c \<and>
          lru c' = el # remove1 el (lru c) \<and> Keys c' = k # remove1 k (Keys c) \<and>
          cache_inv c' \<and>
          bytes_of h' v' = bytes_of h (val (elems c ! el)) \<and>
          (v' = None) = (val (elems c ! el) = None) \<and>
          (\<forall>a. v' = Some a \<longrightarrow> a = length h) \<and>
          (\<forall>a. a < length h \<longrightarrow> load h' a = load h a)"
proof -
  let ?v = "fst (cloneBytes (val (elems c ! el)) h)"
  let ?h = "snd (cloneBytes (val (elems c ! el)) h)"
  let ?c = "c\<lparr>lru := el # remove1 el (lru c)\<rparr>"
  have elin: "el \<in> set (lru c)" by (rule inv_lookup(2)[OF assms(1) l])
  have g: "Get k now (h, c) = ((?v, True), ?h, ?c)"
    using Get_live[OF l x, of h] elin by (simp add: MoveToFront_def)
  have 1: "items ?c = items c" "elems ?c = elems c" "lru ?c = el # remove1 el (lru c)"
    by simp_all
  have 2: "Keys ?c = k # remove1 k (Keys c)"
    using Keys_remove[OF assms(1) l] inv_lookup(4)[OF assms(1) l] by (simp add: Keys_def)
  have 3: "cache_inv ?c" by (rule cache_inv_touch[OF assms(1) elin])
  have 4: "bytes_of ?h ?v = bytes_of h (val (elems c ! el))" by (rule cloneBytes_bytes)
  have 5: "(?v = None) = (val (elems c ! el) = None)" by (rule cloneBytes_nil)
  have 6: "\<forall>a. ?v = Some a \<longrightarrow> a = length h" using cloneBytes_fresh by blast
  have 7: "\<forall>a. a < length h \<longrightarrow> load ?h a = load h a" using cloneBytes_frame by blast
  show ?thesis
    by (rule exI[of _ ?v], rule exI[of _ ?h], rule exI[of _ ?c]) (intro conjI g 1 2 3 4 5 6 7)
qed

section \<open>Capacity enforcement\<close>

text \<open>
  C1. On an open cache, \<^verbatim>\<open>Set\<close> returns without error. When \<open>maxEntries > 0\<close> the
  resulting recency list is the list left by the write with every entry expired at \<open>now\<close>
  removed, wherever it stood, cut to its first \<open>maxEntries\<close> handles (so what is evicted
  beyond the expired entries comes off the LRU end); the index holds exactly the pairs of
  the remaining handles; the entry count is at most \<open>maxEntries\<close>; and no entry that is
  expired at \<open>now\<close> remains, so no live entry was evicted while an expired one stayed.
  When \<open>maxEntries \<le> 0\<close> the result is the state left by the write: no sweep, no eviction.
\<close>

theorem C1_Set_enforces_capacity:
  assumes "cache_inv c" and "\<not> closed c"
  shows "(0 < maxEntries c \<longrightarrow>
            (\<exists>c'. Set k v ttl now (h, c) = Some (None, fst (store k v ttl now (h, c)), c') \<and>
               lru c' = take (nat (maxEntries c))
                          (filter (\<lambda>el. \<not> expired (elems (snd (store k v ttl now (h, c))) ! el) now)
                             (lru (snd (store k v ttl now (h, c))))) \<and>
               items c' = filter (\<lambda>p. snd p \<in> set (lru c')) (items (snd (store k v ttl now (h, c)))) \<and>
               elems c' = elems (snd (store k v ttl now (h, c))) \<and>
               cache_inv c' \<and>
               Len c' \<le> maxEntries c \<and>
               (\<forall>el \<in> set (lru c'). \<not> expired (elems c' ! el) now))) \<and>
         (maxEntries c \<le> 0 \<longrightarrow>
            Set k v ttl now (h, c) = Some (None, store k v ttl now (h, c)))"
proof -
  let ?s = "snd (store k v ttl now (h, c))"
  have invs: "cache_inv ?s" by (rule cache_inv_store[OF assms(1)])
  have S: "Set k v ttl now (h, c) = Some (None, fst (store k v ttl now (h, c)), enforce now ?s)"
    using Set_open[OF assms] by (simp add: store_heap)
  have ms: "maxEntries ?s = maxEntries c" by (simp add: store_flags)
  have B: "maxEntries c \<le> 0 \<longrightarrow> Set k v ttl now (h, c) = Some (None, store k v ttl now (h, c))"
    unfolding S using ms by (simp add: enforce_def)
  have A: "0 < maxEntries c \<longrightarrow>
            (\<exists>c'. Set k v ttl now (h, c) = Some (None, fst (store k v ttl now (h, c)), c') \<and>
               lru c' = take (nat (maxEntries c))
                          (filter (\<lambda>el. \<not> expired (elems ?s ! el) now) (lru ?s)) \<and>
               items c' = filter (\<lambda>p. snd p \<in> set (lru c')) (items ?s) \<and>
               elems c' = elems ?s \<and>
               cache_inv c' \<and>
               Len c' \<le> maxEntries c \<and>
               (\<forall>el \<in> set (lru c'). \<not> expired (elems c' ! el) now))"
  proof
    assume pos: "0 < maxEntries c"
    then have pos': "0 < maxEntries ?s" using ms by simp
    let ?c = "enforce now ?s"
    have l: "lru ?c = take (nat (maxEntries c)) (filter (\<lambda>el. \<not> expired (elems ?s ! el) now) (lru ?s))"
      using enforce_lru[OF invs pos', of now] ms by (simp add: live_def[abs_def])
    have i: "items ?c = filter (\<lambda>p. snd p \<in> set (lru ?c)) (items ?s)"
      unfolding l using enforce_items[OF pos', of now] ms by (simp add: live_def[abs_def])
    have e: "elems ?c = elems ?s" by (simp add: enforce_fields)
    have inv': "cache_inv ?c" by (rule cache_inv_enforce[OF invs])
    have "length (lru ?c) \<le> nat (maxEntries c)" unfolding l by simp
    then have n: "Len ?c \<le> maxEntries c"
      using inv_length[OF inv'] pos by (simp add: Len_def)
    have x: "\<forall>el \<in> set (lru ?c). \<not> expired (elems ?c ! el) now"
      unfolding e unfolding l by (auto dest: in_set_takeD)
    show "\<exists>c'. Set k v ttl now (h, c) = Some (None, fst (store k v ttl now (h, c)), c') \<and>
               lru c' = take (nat (maxEntries c))
                          (filter (\<lambda>el. \<not> expired (elems ?s ! el) now) (lru ?s)) \<and>
               items c' = filter (\<lambda>p. snd p \<in> set (lru c')) (items ?s) \<and>
               elems c' = elems ?s \<and>
               cache_inv c' \<and>
               Len c' \<le> maxEntries c \<and>
               (\<forall>el \<in> set (lru c'). \<not> expired (elems c' ! el) now)"
      using S l i e inv' n x by blast
  qed
  show ?thesis using A B by blast
qed

theorem C1_Set_enforces_capacity_witness:
  "cache_inv ex_full \<and> \<not> closed ex_full \<and> 0 < maxEntries ex_full \<and>
   (\<exists>c'. Set ''c'' None 0 10 (ex_heap, ex_full) = Some (None, ex_heap, c') \<and>
      lru c' = [2, 1] \<and> items c' = [(''c'', 2), (''b'', 1)] \<and> Len c' \<le> 2) \<and>
   cache_inv ex_unbounded \<and> \<not> closed ex_unbounded \<and> maxEntries ex_unbounded \<le> 0 \<and>
   (\<exists>c'. Set ''c'' None 0 10 (ex_heap, ex_unbounded) = Some (None, ex_heap, c') \<and>
      lru c' = [2, 0, 1] \<and> items c' = [(''c'', 2), (''a'', 0), (''b'', 1)] \<and> Len c' = 3)"
proof -
  have i: "cache_inv ex_full" by (simp add: cache_inv_def ex_full_def)
  have o: "\<not> closed ex_full" by (simp add: ex_full_def)
  have m: "maxEntries ex_full = 2" by (simp add: ex_full_def)
  have s: "store ''c'' None 0 10 (ex_heap, ex_full) =
     (ex_heap, ex_full\<lparr>elems := elems ex_full @ [\<lparr>key = ''c'', val = None, expiresAt = 0, hasExpiry = False\<rparr>],
            lru := [2, 0, 1], items := [(''c'', 2), (''a'', 0), (''b'', 1)]\<rparr>)"
    by (simp add: store_def Let_def lookup_def ex_full_def cloneBytes_def PushFront_def
        insert_new_def zeroTime_def)
  from C1_Set_enforces_capacity[OF i o, of "''c''" None 0 10 ex_heap]
  obtain c' where a: "Set ''c'' None 0 10 (ex_heap, ex_full) = Some (None, ex_heap, c')"
    and l: "lru c' = [2, 1]"
    and it: "items c' = filter (\<lambda>p. snd p \<in> set (lru c')) [(''c'', 2), (''a'', 0), (''b'', 1)]"
    and n: "Len c' \<le> 2"
    unfolding s m by (auto simp add: ex_full_def expired_def)
  have it': "items c' = [(''c'', 2), (''b'', 1)]" unfolding it l by simp
  have 1: "\<exists>c'. Set ''c'' None 0 10 (ex_heap, ex_full) = Some (None, ex_heap, c') \<and>
      lru c' = [2, 1] \<and> items c' = [(''c'', 2), (''b'', 1)] \<and> Len c' \<le> 2"
    by (rule exI[of _ c']) (intro conjI a l it' n)
  have iu: "cache_inv ex_unbounded" by (simp add: cache_inv_def ex_unbounded_def ex_full_def)
  have ou: "\<not> closed ex_unbounded" by (simp add: ex_unbounded_def ex_full_def)
  have mu: "maxEntries ex_unbounded \<le> 0" by (simp add: ex_unbounded_def)
  have su: "store ''c'' None 0 10 (ex_heap, ex_unbounded) =
     (ex_heap, ex_unbounded\<lparr>elems := elems ex_unbounded @
              [\<lparr>key = ''c'', val = None, expiresAt = 0, hasExpiry = False\<rparr>],
            lru := [2, 0, 1], items := [(''c'', 2), (''a'', 0), (''b'', 1)]\<rparr>)"
    by (simp add: store_def Let_def lookup_def ex_unbounded_def ex_full_def cloneBytes_def
        PushFront_def insert_new_def zeroTime_def)
  have "Set ''c'' None 0 10 (ex_heap, ex_unbounded) =
      Some (None, store ''c'' None 0 10 (ex_heap, ex_unbounded))"
    using C1_Set_enforces_capacity[OF iu ou, of "''c''" None 0 10 ex_heap] mu by blast
  then have 2: "\<exists>c'. Set ''c'' None 0 10 (ex_heap, ex_unbounded) = Some (None, ex_heap, c') \<and>
      lru c' = [2, 0, 1] \<and> items c' = [(''c'', 2), (''a'', 0), (''b'', 1)] \<and> Len c' = 3"
    unfolding su by (simp add: Len_def)
  show ?thesis using i o m 1 iu ou mu 2 by simp
qed

section \<open>Get\<close>

text \<open>
  C2. On a state that satisfies the invariant: \<^verbatim>\<open>Get\<close> of an absent key reports
  not-found and changes nothing; \<^verbatim>\<open>Get\<close> of a key whose entry has an expiry that is not
  after \<open>now\<close> removes the entry from index and list and reports not-found;
  \<^verbatim>\<open>Get\<close> of a key whose entry is live moves its element to the front of the list,
  leaves index and entries as they are, and returns \<open>found = true\<close> with a slice that is nil
  exactly when the stored one is, refers to a newly allocated array otherwise, and shows
  the stored bytes; the arrays allocated before are unchanged.
\<close>

theorem C2_Get_behaviour:
  assumes "cache_inv c"
  shows "(lookup (items c) k = None \<longrightarrow> Get k now (h, c) = ((None, False), h, c)) \<and>
    (\<forall>el. lookup (items c) k = Some el \<and>
          hasExpiry (elems c ! el) \<and> expiresAt (elems c ! el) \<le> now \<longrightarrow>
       (\<exists>c'. Get k now (h, c) = ((None, False), h, c') \<and>
          lookup (items c') k = None \<and> items c' = delete k (items c) \<and>
          lru c' = remove1 el (lru c) \<and> el \<notin> set (lru c') \<and>
          Keys c' = remove1 k (Keys c) \<and> k \<notin> set (Keys c') \<and>
          elems c' = elems c \<and> cache_inv c')) \<and>
    (\<forall>el. lookup (items c) k = Some el \<and>
          (\<not> hasExpiry (elems c ! el) \<or> now < expiresAt (elems c ! el)) \<longrightarrow>
       (\<exists>v' h' c'. Get k now (h, c) = ((v', True), h', c') \<and>
          items c' = items c \<and> elems c' = elems c \<and>
          lru c' = el # remove1 el (lru c) \<and> Keys c' = k # remove1 k (Keys c) \<and>
          cache_inv c' \<and>
          bytes_of h' v' = bytes_of h (val (elems c ! el)) \<and>
          (v' = None) = (val (elems c ! el) = None) \<and>
          (\<forall>a. v' = Some a \<longrightarrow> a = length h) \<and>
          (\<forall>a. a < length h \<longrightarrow> load h' a = load h a)))"
proof (intro conjI allI impI)
  assume "lookup (items c) k = None"
  then show "Get k now (h, c) = ((None, False), h, c)" by (rule Get_absent)
next
  fix el
  assume "lookup (items c) k = Some el \<and>
          hasExpiry (elems c ! el) \<and> expiresAt (elems c ! el) \<le> now"
  then have l: "lookup (items c) k = Some el" and x: "expired (elems c ! el) now"
    by (simp_all add: expired_def)
  show "\<exists>c'. Get k now (h, c) = ((None, False), h, c') \<and>
          lookup (items c') k = None \<and> items c' = delete k (items c) \<and>
          lru c' = remove1 el (lru c) \<and> el \<notin> set (lru c') \<and>
          Keys c' = remove1 k (Keys c) \<and> k \<notin> set (Keys c') \<and>
          elems c' = elems c \<and> cache_inv c'"
    by (rule Get_expired_effect[OF assms l x])
next
  fix el
  assume "lookup (items c) k = Some el \<and>
          (\<not> hasExpiry (elems c ! el) \<or> now < expiresAt (elems c ! el))"
  then have l: "lookup (items c) k = Some el" and x: "\<not> expired (elems c ! el) now"
    by (auto simp add: expired_def)
  show "\<exists>v' h' c'. Get k now (h, c) = ((v', True), h', c') \<and>
          items c' = items c \<and> elems c' = elems c \<and>
          lru c' = el # remove1 el (lru c) \<and> Keys c' = k # remove1 k (Keys c) \<and>
          cache_inv c' \<and>
          bytes_of h' v' = bytes_of h (val (elems c ! el)) \<and>
          (v' = None) = (val (elems c ! el) = None) \<and>
          (\<forall>a. v' = Some a \<longrightarrow> a = length h) \<and>
          (\<forall>a. a < length h \<longrightarrow> load h' a = load h a)"
    by (rule Get_live_effect[OF assms l x])
qed

theorem C2_Get_behaviour_witness:
  "cache_inv ex_full \<and>
   Get ''z'' 10 (ex_heap, ex_full) = ((None, False), ex_heap, ex_full) \<and>
   (\<exists>c'. Get ''a'' 10 (ex_heap, ex_full) = ((None, False), ex_heap, c') \<and>
      items c' = [(''b'', 1)] \<and> lru c' = [1] \<and> Keys c' = [''b'']) \<and>
   (\<exists>v' h' c'. Get ''b'' 10 (ex_heap, ex_full) = ((v', True), h', c') \<and>
      lru c' = [1, 0] \<and> Keys c' = [''b'', ''a''] \<and> bytes_of h' v' = [66] \<and> v' \<noteq> Some 1)"
proof -
  have i: "cache_inv ex_full" by (simp add: cache_inv_def ex_full_def)
  have z: "lookup (items ex_full) ''z'' = None" by (simp add: lookup_def ex_full_def)
  have a: "lookup (items ex_full) ''a'' = Some 0 \<and>
      hasExpiry (elems ex_full ! 0) \<and> expiresAt (elems ex_full ! 0) \<le> 10"
    by (simp add: lookup_def ex_full_def)
  have b: "lookup (items ex_full) ''b'' = Some 1 \<and>
      (\<not> hasExpiry (elems ex_full ! 1) \<or> 10 < expiresAt (elems ex_full ! 1))"
    by (simp add: lookup_def ex_full_def)
  have k: "Keys ex_full = [''a'', ''b'']" by (simp add: Keys_def ex_full_def)
  have 1: "Get ''z'' 10 (ex_heap, ex_full) = ((None, False), ex_heap, ex_full)"
    using C2_Get_behaviour[OF i, of "''z''" 10 ex_heap] z by blast
  from C2_Get_behaviour[OF i, of "''a''" 10 ex_heap] a
  obtain c' where "Get ''a'' 10 (ex_heap, ex_full) = ((None, False), ex_heap, c')"
    "items c' = delete ''a'' (items ex_full)" "lru c' = remove1 0 (lru ex_full)"
    "Keys c' = remove1 ''a'' (Keys ex_full)"
    by blast
  then have 2: "\<exists>c'. Get ''a'' 10 (ex_heap, ex_full) = ((None, False), ex_heap, c') \<and>
      items c' = [(''b'', 1)] \<and> lru c' = [1] \<and> Keys c' = [''b'']"
    unfolding k by (simp add: ex_full_def delete_def)
  from C2_Get_behaviour[OF i, of "''b''" 10 ex_heap] b
  obtain v' h' c'' where g: "Get ''b'' 10 (ex_heap, ex_full) = ((v', True), h', c'')"
    and "lru c'' = 1 # remove1 1 (lru ex_full)"
    "Keys c'' = ''b'' # remove1 ''b'' (Keys ex_full)"
    "bytes_of h' v' = bytes_of ex_heap (val (elems ex_full ! 1))"
    "\<forall>a. v' = Some a \<longrightarrow> a = length ex_heap"
    by blast
  then have "lru c'' = [1, 0] \<and> Keys c'' = [''b'', ''a''] \<and> bytes_of h' v' = [66] \<and> v' \<noteq> Some 1"
    unfolding k by (auto simp add: ex_full_def ex_heap_def bytes_of_def load_def)
  then have 3: "\<exists>v' h' c'. Get ''b'' 10 (ex_heap, ex_full) = ((v', True), h', c') \<and>
      lru c' = [1, 0] \<and> Keys c' = [''b'', ''a''] \<and> bytes_of h' v' = [66] \<and> v' \<noteq> Some 1"
    using g by blast
  show ?thesis using i 1 2 3 by blast
qed

section \<open>Close\<close>

lemma Close_fields:
  "closed (snd (Close c))" "fst (Close c) = None"
  "items (snd (Close c)) = items c" "lru (snd (Close c)) = lru c"
  "elems (snd (Close c)) = elems c" "maxEntries (snd (Close c)) = maxEntries c"
  "cleanupEvery (snd (Close c)) = cleanupEvery c"
  by (simp_all add: Close_def)

lemma Close_closed: "closed c \<Longrightarrow> Close c = (None, c)"
  by (simp add: Close_def)

lemma cache_inv_Close: "cache_inv c \<Longrightarrow> cache_inv (snd (Close c))"
  by (simp add: cache_inv_def Close_fields)

lemma Set_closed: "closed c \<Longrightarrow> Set k v ttl now (h, c) = Some (Some ErrClosed, h, c)"
  by (simp add: Set_def)

lemma Delete_closed: "closed c \<Longrightarrow> Delete k c = (Some ErrClosed, c)"
  by (simp add: Delete_def)

lemma deleteLocked_closed: "closed (deleteLocked k c) = closed c"
  by (cases "lookup (items c) k") (simp_all add: deleteLocked_def)

lemma sweep_closed: "closed (snd (sweep its now c)) = closed c"
  by (induction its now c rule: sweep.induct) (simp_all add: Let_def)

lemma Get_closed: "closed (snd (snd (Get k now (h, c)))) = closed c"
proof (cases "lookup (items c) k")
  case None
  then show ?thesis by (simp add: Get_absent)
next
  case (Some el)
  show ?thesis
  proof (cases "expired (elems c ! el) now")
    case True
    then show ?thesis using Some by (simp add: Get_expired deleteLocked_closed)
  next
    case False
    then show ?thesis using Some by (simp add: Get_live)
  qed
qed

lemma step_closed:
  assumes "closed c"
  shows "\<exists>h' c'. step x (h, c) = Some (h', c') \<and> closed c'"
proof (cases x)
  case (OpSet k v ttl now)
  then show ?thesis using assms by (simp add: Set_closed)
next
  case (OpGet k now)
  have "closed (snd (snd (Get k now (h, c))))" using assms by (simp add: Get_closed)
  then show ?thesis using OpGet by (metis prod.collapse step.simps(2))
next
  case (OpDelete k)
  then show ?thesis using assms by (simp add: Delete_closed)
next
  case OpLen
  then show ?thesis using assms by simp
next
  case OpKeys
  then show ?thesis using assms by simp
next
  case OpClose
  then show ?thesis by (simp add: Close_fields)
next
  case (OpTick now)
  then show ?thesis using assms by (simp add: expiryTick_def deleteExpiredLocked_def sweep_closed)
qed

lemma run_closed:
  "closed c \<Longrightarrow> \<exists>h' c'. run xs (h, c) = Some (h', c') \<and> closed c'"
proof (induction xs arbitrary: h c)
  case Nil
  then show ?case by simp
next
  case (Cons x xs)
  from step_closed[OF Cons.prems, of x h]
  obtain h1 c1 where s: "step x (h, c) = Some (h1, c1)" and c: "closed c1" by blast
  from Cons.IH[OF c, of h1] show ?case using s by simp
qed

text \<open>
  C8. \<^verbatim>\<open>Close\<close> always returns success and leaves the cache closed; on an open cache it
  sets the closed flag and cancels the worker's context and changes nothing else; on a
  closed cache it returns at once and changes nothing. From a closed cache every operation
  and every sequence of operations (\<^verbatim>\<open>Set\<close>, \<^verbatim>\<open>Get\<close>, \<^verbatim>\<open>Delete\<close>, \<^verbatim>\<open>Len\<close>,
  \<^verbatim>\<open>Keys\<close>, \<^verbatim>\<open>Close\<close>, a tick of the worker) returns and leaves it closed.
\<close>

theorem C8_Close_one_way:
  "fst (Close c) = None \<and> closed (snd (Close c)) \<and>
   (closed c \<longrightarrow> Close c = (None, c)) \<and>
   Close (snd (Close c)) = (None, snd (Close c)) \<and>
   (\<not> closed c \<longrightarrow> snd (Close c) = c\<lparr>closed := True, cancelled := True\<rparr>) \<and>
   (\<forall>x h. closed c \<longrightarrow> (\<exists>h' c'. step x (h, c) = Some (h', c') \<and> closed c')) \<and>
   (\<forall>xs h. closed c \<longrightarrow> (\<exists>h' c'. run xs (h, c) = Some (h', c') \<and> closed c'))"
proof -
  have 1: "fst (Close c) = None" "closed (snd (Close c))" by (rule Close_fields)+
  have 2: "closed c \<longrightarrow> Close c = (None, c)" by (simp add: Close_closed)
  have 3: "Close (snd (Close c)) = (None, snd (Close c))" by (rule Close_closed[OF 1(2)])
  have 4: "\<not> closed c \<longrightarrow> snd (Close c) = c\<lparr>closed := True, cancelled := True\<rparr>"
    by (simp add: Close_def)
  have 5: "\<forall>x h. closed c \<longrightarrow> (\<exists>h' c'. step x (h, c) = Some (h', c') \<and> closed c')"
    using step_closed by blast
  have 6: "\<forall>xs h. closed c \<longrightarrow> (\<exists>h' c'. run xs (h, c) = Some (h', c') \<and> closed c')"
    using run_closed by blast
  show ?thesis using 1 2 3 4 5 6 by blast
qed

theorem C8_Close_one_way_witness:
  "\<not> closed ex_full \<and> Close ex_full = (None, ex_full\<lparr>closed := True, cancelled := True\<rparr>) \<and>
   closed ex_closed \<and> Close ex_closed = (None, ex_closed) \<and>
   (\<exists>h' c'. run [OpSet ''c'' None 0 10, OpGet ''b'' 11, OpDelete ''a'', OpTick 12, OpLen,
                 OpKeys, OpClose] (ex_heap, ex_closed) = Some (h', c') \<and> closed c')"
proof -
  have o: "\<not> closed ex_full" by (simp add: ex_full_def)
  have c: "closed ex_closed" by (simp add: ex_closed_def Close_def)
  have "fst (Close ex_full) = None"
    "snd (Close ex_full) = ex_full\<lparr>closed := True, cancelled := True\<rparr>"
    using C8_Close_one_way[of ex_full] o by blast+
  then have 1: "Close ex_full = (None, ex_full\<lparr>closed := True, cancelled := True\<rparr>)"
    by (simp add: prod_eq_iff)
  have 2: "Close ex_closed = (None, ex_closed)"
    using C8_Close_one_way[of ex_closed] c by blast
  have 3: "\<exists>h' c'. run [OpSet ''c'' None 0 10, OpGet ''b'' 11, OpDelete ''a'', OpTick 12, OpLen,
                 OpKeys, OpClose] (ex_heap, ex_closed) = Some (h', c') \<and> closed c'"
    using C8_Close_one_way[of ex_closed] c by blast
  show ?thesis by (intro conjI o 1 c 2 3)
qed

section \<open>Errors\<close>

lemma Delete_open: "\<not> closed c \<Longrightarrow> Delete k c = (None, deleteLocked k c)"
  by (simp add: Delete_def)

lemma deleteLocked_items: "items (deleteLocked k c) = delete k (items c)"
proof (cases "lookup (items c) k")
  case None
  then have "k \<notin> fst ` set (items c)" by (simp add: lookup_def map_of_eq_None_iff)
  then have "filter (\<lambda>p. fst p \<noteq> k) (items c) = items c"
    by (intro filter_True) auto
  then show ?thesis using None by (simp add: deleteLocked_def delete_def)
next
  case (Some el)
  then show ?thesis by (simp add: deleteLocked_def)
qed

lemma deleteLocked_None: "lookup (items c) k = None \<Longrightarrow> deleteLocked k c = c"
  by (simp add: deleteLocked_def)

lemma Set_result_open:
  assumes "\<not> closed c" "Set k v ttl now (h, c) = Some r"
  shows "fst r = None"
  using assms by (auto simp add: Set_def Let_def split: option.splits)

lemma Get_notfound: "\<not> snd (fst (Get k now (h, c))) \<Longrightarrow> fst (fst (Get k now (h, c))) = None"
proof (cases "lookup (items c) k")
  case None
  then show ?thesis by (simp add: Get_absent)
next
  case (Some el)
  assume n: "\<not> snd (fst (Get k now (h, c)))"
  show ?thesis
  proof (cases "expired (elems c ! el) now")
    case True
    then show ?thesis using Some by (simp add: Get_expired)
  next
    case False
    then show ?thesis using Some n by (simp add: Get_live)
  qed
qed

text \<open>
  C5. On a closed cache \<^verbatim>\<open>Set\<close> and \<^verbatim>\<open>Delete\<close> return \<^verbatim>\<open>ErrClosed\<close> and leave the
  state as it is. On an open cache \<^verbatim>\<open>Delete\<close> returns no error, removes the key from
  the index (and its element from the list) when it is there and changes nothing when it
  is not, and leaves the other keys alone; a \<^verbatim>\<open>Set\<close> that returns returns no error,
  and it does return on every state that satisfies the invariant. \<^verbatim>\<open>Get\<close> has no
  error result: for an absent key, for an expired key, and whenever it reports
  \<open>found = false\<close>, its result is the same pair (nil, false).
\<close>

theorem C5_errors:
  "(closed c \<longrightarrow>
      Set k v ttl now (h, c) = Some (Some ErrClosed, h, c) \<and>
      Delete k c = (Some ErrClosed, c)) \<and>
   (\<not> closed c \<longrightarrow>
      fst (Delete k c) = None \<and>
      snd (Delete k c) = deleteLocked k c \<and>
      items (snd (Delete k c)) = delete k (items c) \<and>
      lookup (items (snd (Delete k c))) k = None \<and>
      (\<forall>k'. k' \<noteq> k \<longrightarrow> lookup (items (snd (Delete k c))) k' = lookup (items c) k') \<and>
      (lookup (items c) k = None \<longrightarrow> snd (Delete k c) = c) \<and>
      (\<forall>el. lookup (items c) k = Some el \<longrightarrow> lru (snd (Delete k c)) = remove1 el (lru c)) \<and>
      (\<forall>r. Set k v ttl now (h, c) = Some r \<longrightarrow> fst r = None)) \<and>
   (\<not> closed c \<and> cache_inv c \<longrightarrow>
      (\<exists>h' c'. Set k v ttl now (h, c) = Some (None, h', c')) \<and>
      cache_inv (snd (Delete k c))) \<and>
   (lookup (items c) k = None \<longrightarrow> fst (Get k now (h, c)) = (None, False)) \<and>
   (\<forall>el. lookup (items c) k = Some el \<and> expired (elems c ! el) now \<longrightarrow>
      fst (Get k now (h, c)) = (None, False)) \<and>
   (\<not> snd (fst (Get k now (h, c))) \<longrightarrow> fst (Get k now (h, c)) = (None, False))"
proof -
  have A: "closed c \<longrightarrow>
      Set k v ttl now (h, c) = Some (Some ErrClosed, h, c) \<and>
      Delete k c = (Some ErrClosed, c)"
    by (simp add: Set_closed Delete_closed)
  have B: "\<not> closed c \<longrightarrow>
      fst (Delete k c) = None \<and>
      snd (Delete k c) = deleteLocked k c \<and>
      items (snd (Delete k c)) = delete k (items c) \<and>
      lookup (items (snd (Delete k c))) k = None \<and>
      (\<forall>k'. k' \<noteq> k \<longrightarrow> lookup (items (snd (Delete k c))) k' = lookup (items c) k') \<and>
      (lookup (items c) k = None \<longrightarrow> snd (Delete k c) = c) \<and>
      (\<forall>el. lookup (items c) k = Some el \<longrightarrow> lru (snd (Delete k c)) = remove1 el (lru c)) \<and>
      (\<forall>r. Set k v ttl now (h, c) = Some r \<longrightarrow> fst r = None)"
  proof
    assume o: "\<not> closed c"
    have d: "Delete k c = (None, deleteLocked k c)" by (rule Delete_open[OF o])
    have 1: "fst (Delete k c) = None" "snd (Delete k c) = deleteLocked k c" unfolding d by simp_all
    have 2: "items (snd (Delete k c)) = delete k (items c)" unfolding 1 by (rule deleteLocked_items)
    have 3: "lookup (items (snd (Delete k c))) k = None" unfolding 2 by (rule lookup_delete)
    have 4: "\<forall>k'. k' \<noteq> k \<longrightarrow> lookup (items (snd (Delete k c))) k' = lookup (items c) k'"
      unfolding 2 using lookup_delete_other by blast
    have 5: "lookup (items c) k = None \<longrightarrow> snd (Delete k c) = c"
      unfolding 1 using deleteLocked_None by blast
    have 6: "\<forall>el. lookup (items c) k = Some el \<longrightarrow> lru (snd (Delete k c)) = remove1 el (lru c)"
      unfolding 1 by (simp add: deleteLocked_Some Remove_def)
    have 7: "\<forall>r. Set k v ttl now (h, c) = Some r \<longrightarrow> fst r = None"
      using Set_result_open[OF o] by blast
    show "fst (Delete k c) = None \<and>
      snd (Delete k c) = deleteLocked k c \<and>
      items (snd (Delete k c)) = delete k (items c) \<and>
      lookup (items (snd (Delete k c))) k = None \<and>
      (\<forall>k'. k' \<noteq> k \<longrightarrow> lookup (items (snd (Delete k c))) k' = lookup (items c) k') \<and>
      (lookup (items c) k = None \<longrightarrow> snd (Delete k c) = c) \<and>
      (\<forall>el. lookup (items c) k = Some el \<longrightarrow> lru (snd (Delete k c)) = remove1 el (lru c)) \<and>
      (\<forall>r. Set k v ttl now (h, c) = Some r \<longrightarrow> fst r = None)"
      by (intro conjI 1 2 3 4 5 6 7)
  qed
  have C: "\<not> closed c \<and> cache_inv c \<longrightarrow>
      (\<exists>h' c'. Set k v ttl now (h, c) = Some (None, h', c')) \<and>
      cache_inv (snd (Delete k c))"
  proof
    assume a: "\<not> closed c \<and> cache_inv c"
    then have "Set k v ttl now (h, c) =
        Some (None, snd (cloneBytes v h), enforce now (snd (store k v ttl now (h, c))))"
      using Set_open by blast
    then have 1: "\<exists>h' c'. Set k v ttl now (h, c) = Some (None, h', c')" by blast
    have 2: "cache_inv (snd (Delete k c))"
      using a by (simp add: Delete_open cache_inv_deleteLocked)
    show "(\<exists>h' c'. Set k v ttl now (h, c) = Some (None, h', c')) \<and>
      cache_inv (snd (Delete k c))" using 1 2 by (rule conjI)
  qed
  have D: "lookup (items c) k = None \<longrightarrow> fst (Get k now (h, c)) = (None, False)"
    by (simp add: Get_absent)
  have E: "\<forall>el. lookup (items c) k = Some el \<and> expired (elems c ! el) now \<longrightarrow>
      fst (Get k now (h, c)) = (None, False)"
    by (simp add: Get_expired)
  have F: "\<not> snd (fst (Get k now (h, c))) \<longrightarrow> fst (Get k now (h, c)) = (None, False)"
    using Get_notfound[of k now h c] by (simp add: prod_eq_iff)
  show ?thesis by (intro conjI A B C D E F)
qed

theorem C5_errors_witness:
  "closed ex_closed \<and> \<not> closed ex_full \<and> cache_inv ex_full \<and>
   Set ''c'' (Some 0) 0 10 (ex_heap, ex_closed) = Some (Some ErrClosed, ex_heap, ex_closed) \<and>
   Delete ''a'' ex_closed = (Some ErrClosed, ex_closed) \<and>
   fst (Delete ''a'' ex_full) = None \<and> items (snd (Delete ''a'' ex_full)) = [(''b'', 1)] \<and>
   lru (snd (Delete ''a'' ex_full)) = [1] \<and>
   Delete ''z'' ex_full = (None, ex_full) \<and>
   (\<exists>h' c'. Set ''c'' (Some 0) 0 10 (ex_heap, ex_full) = Some (None, h', c')) \<and>
   fst (Get ''z'' 10 (ex_heap, ex_full)) = (None, False) \<and>
   fst (Get ''a'' 10 (ex_heap, ex_full)) = (None, False)"
proof -
  have c: "closed ex_closed" by (simp add: ex_closed_def Close_def)
  have o: "\<not> closed ex_full" by (simp add: ex_full_def)
  have i: "cache_inv ex_full" by (simp add: cache_inv_def ex_full_def)
  have la: "lookup (items ex_full) ''a'' = Some 0" by (simp add: lookup_def ex_full_def)
  have lz: "lookup (items ex_full) ''z'' = None" by (simp add: lookup_def ex_full_def)
  have xa: "expired (elems ex_full ! 0) 10" by (simp add: expired_def ex_full_def)
  note T = C5_errors[of ex_closed "''c''" "Some 0" 0 10 ex_heap]
  note A = C5_errors[of ex_full "''a''" "Some 0" 0 10 ex_heap]
  note Z = C5_errors[of ex_full "''z''" "Some 0" 0 10 ex_heap]
  note S = C5_errors[of ex_full "''c''" "Some 0" 0 10 ex_heap]
  note D = C5_errors[of ex_closed "''a''" "Some 0" 0 10 ex_heap]
  have 1: "Set ''c'' (Some 0) 0 10 (ex_heap, ex_closed) = Some (Some ErrClosed, ex_heap, ex_closed)"
    using T c by blast
  have 2: "Delete ''a'' ex_closed = (Some ErrClosed, ex_closed)" using D c by blast
  have 3: "fst (Delete ''a'' ex_full) = None" using A o by blast
  have "items (snd (Delete ''a'' ex_full)) = delete ''a'' (items ex_full)" using A o by blast
  then have 4: "items (snd (Delete ''a'' ex_full)) = [(''b'', 1)]"
    by (simp add: delete_def ex_full_def)
  have "lru (snd (Delete ''a'' ex_full)) = remove1 0 (lru ex_full)" using A o la by blast
  then have 5: "lru (snd (Delete ''a'' ex_full)) = [1]" by (simp add: ex_full_def)
  have "fst (Delete ''z'' ex_full) = None" "snd (Delete ''z'' ex_full) = ex_full"
    using Z o lz by blast+
  then have 6: "Delete ''z'' ex_full = (None, ex_full)" by (simp add: prod_eq_iff)
  have 7: "\<exists>h' c'. Set ''c'' (Some 0) 0 10 (ex_heap, ex_full) = Some (None, h', c')"
    using S o i by blast
  have 8: "fst (Get ''z'' 10 (ex_heap, ex_full)) = (None, False)" using Z lz by blast
  have 9: "fst (Get ''a'' 10 (ex_heap, ex_full)) = (None, False)" using A la xa by blast
  show ?thesis by (intro conjI c o i 1 2 3 4 5 6 7 8 9)
qed

section \<open>Get on a closed cache\<close>

lemma Get_Close_fst: "fst (Get k now (h, snd (Close c))) = fst (Get k now (h, c))"
proof (cases "lookup (items c) k")
  case None
  then show ?thesis by (simp add: Get_absent Close_fields)
next
  case (Some el)
  show ?thesis
  proof (cases "expired (elems c ! el) now")
    case True
    then show ?thesis using Some by (simp add: Get_expired Close_fields)
  next
    case False
    then show ?thesis using Some by (simp add: Get_live Close_fields)
  qed
qed

text \<open>
  C10. After \<^verbatim>\<open>Close\<close>, \<^verbatim>\<open>Set\<close> and \<^verbatim>\<open>Delete\<close> are refused, but \<^verbatim>\<open>Get\<close> answers as
  it would have on the open cache: for a live key it returns a fresh copy of the value
  with \<open>found = true\<close> and moves the element to the front of the list; for an expired key
  it removes the entry from index and list. The cache stays closed.
\<close>

theorem C10_Get_after_Close:
  assumes "cache_inv c"
  shows "closed (snd (Close c)) \<and>
    Set k' v ttl now (h, snd (Close c)) = Some (Some ErrClosed, h, snd (Close c)) \<and>
    Delete k' (snd (Close c)) = (Some ErrClosed, snd (Close c)) \<and>
    fst (Get k now (h, snd (Close c))) = fst (Get k now (h, c)) \<and>
    (\<forall>el. lookup (items c) k = Some el \<and> \<not> expired (elems c ! el) now \<longrightarrow>
       (\<exists>v' h' c'. Get k now (h, snd (Close c)) = ((v', True), h', c') \<and>
          bytes_of h' v' = bytes_of h (val (elems c ! el)) \<and>
          (\<forall>a. v' = Some a \<longrightarrow> a = length h) \<and>
          lru c' = el # remove1 el (lru c) \<and> Keys c' = k # remove1 k (Keys c) \<and>
          items c' = items c \<and> closed c')) \<and>
    (\<forall>el. lookup (items c) k = Some el \<and> expired (elems c ! el) now \<longrightarrow>
       (\<exists>c'. Get k now (h, snd (Close c)) = ((None, False), h, c') \<and>
          lookup (items c') k = None \<and> items c' = delete k (items c) \<and>
          lru c' = remove1 el (lru c) \<and> Keys c' = remove1 k (Keys c) \<and> closed c'))"
proof -
  let ?c = "snd (Close c)"
  have inv: "cache_inv ?c" by (rule cache_inv_Close[OF assms])
  have cl: "closed ?c" by (rule Close_fields)
  have K: "Keys ?c = Keys c" by (simp add: Keys_def Close_fields)
  have 1: "Set k' v ttl now (h, ?c) = Some (Some ErrClosed, h, ?c)" by (rule Set_closed[OF cl])
  have 2: "Delete k' ?c = (Some ErrClosed, ?c)" by (rule Delete_closed[OF cl])
  have 3: "fst (Get k now (h, ?c)) = fst (Get k now (h, c))" by (rule Get_Close_fst)
  have 4: "\<forall>el. lookup (items c) k = Some el \<and> \<not> expired (elems c ! el) now \<longrightarrow>
       (\<exists>v' h' c'. Get k now (h, ?c) = ((v', True), h', c') \<and>
          bytes_of h' v' = bytes_of h (val (elems c ! el)) \<and>
          (\<forall>a. v' = Some a \<longrightarrow> a = length h) \<and>
          lru c' = el # remove1 el (lru c) \<and> Keys c' = k # remove1 k (Keys c) \<and>
          items c' = items c \<and> closed c')"
  proof (intro allI impI)
    fix el assume a: "lookup (items c) k = Some el \<and> \<not> expired (elems c ! el) now"
    then have l: "lookup (items ?c) k = Some el" and x: "\<not> expired (elems ?c ! el) now"
      by (simp_all add: Close_fields)
    from Get_live_effect[OF inv l x, of h]
    obtain v' h' c' where g: "Get k now (h, ?c) = ((v', True), h', c')"
      and p: "items c' = items ?c" "lru c' = el # remove1 el (lru ?c)"
        "Keys c' = k # remove1 k (Keys ?c)"
        "bytes_of h' v' = bytes_of h (val (elems ?c ! el))"
        "\<forall>a. v' = Some a \<longrightarrow> a = length h"
      by blast
    have "closed (snd (snd (Get k now (h, ?c))))" using cl by (simp add: Get_closed)
    then have c': "closed c'" unfolding g by simp
    show "\<exists>v' h' c'. Get k now (h, ?c) = ((v', True), h', c') \<and>
          bytes_of h' v' = bytes_of h (val (elems c ! el)) \<and>
          (\<forall>a. v' = Some a \<longrightarrow> a = length h) \<and>
          lru c' = el # remove1 el (lru c) \<and> Keys c' = k # remove1 k (Keys c) \<and>
          items c' = items c \<and> closed c'"
      using g p c' unfolding K by (simp add: Close_fields)
  qed
  have 5: "\<forall>el. lookup (items c) k = Some el \<and> expired (elems c ! el) now \<longrightarrow>
       (\<exists>c'. Get k now (h, ?c) = ((None, False), h, c') \<and>
          lookup (items c') k = None \<and> items c' = delete k (items c) \<and>
          lru c' = remove1 el (lru c) \<and> Keys c' = remove1 k (Keys c) \<and> closed c')"
  proof (intro allI impI)
    fix el assume a: "lookup (items c) k = Some el \<and> expired (elems c ! el) now"
    then have l: "lookup (items ?c) k = Some el" and x: "expired (elems ?c ! el) now"
      by (simp_all add: Close_fields)
    from Get_expired_effect[OF inv l x, of h]
    obtain c' where g: "Get k now (h, ?c) = ((None, False), h, c')"
      and p: "lookup (items c') k = None" "items c' = delete k (items ?c)"
        "lru c' = remove1 el (lru ?c)" "Keys c' = remove1 k (Keys ?c)"
      by blast
    have "closed (snd (snd (Get k now (h, ?c))))" using cl by (simp add: Get_closed)
    then have c': "closed c'" unfolding g by simp
    show "\<exists>c'. Get k now (h, ?c) = ((None, False), h, c') \<and>
          lookup (items c') k = None \<and> items c' = delete k (items c) \<and>
          lru c' = remove1 el (lru c) \<and> Keys c' = remove1 k (Keys c) \<and> closed c'"
      using g p c' unfolding K by (simp add: Close_fields)
  qed
  show ?thesis by (intro conjI cl 1 2 3 4 5)
qed

theorem C10_Get_after_Close_witness:
  "cache_inv ex_full \<and> closed ex_closed \<and>
   Set ''c'' None 0 10 (ex_heap, ex_closed) = Some (Some ErrClosed, ex_heap, ex_closed) \<and>
   Delete ''a'' ex_closed = (Some ErrClosed, ex_closed) \<and>
   (\<exists>v' h' c'. Get ''b'' 10 (ex_heap, ex_closed) = ((v', True), h', c') \<and>
      bytes_of h' v' = [66] \<and> v' \<noteq> Some 1 \<and> lru c' = [1, 0] \<and>
      Keys c' = [''b'', ''a''] \<and> closed c') \<and>
   (\<exists>c'. Get ''a'' 10 (ex_heap, ex_closed) = ((None, False), ex_heap, c') \<and>
      items c' = [(''b'', 1)] \<and> lru c' = [1] \<and> Keys c' = [''b''] \<and> closed c')"
proof -
  have i: "cache_inv ex_full" by (simp add: cache_inv_def ex_full_def)
  have k: "Keys ex_full = [''a'', ''b'']" by (simp add: Keys_def ex_full_def)
  have a: "lookup (items ex_full) ''a'' = Some 0 \<and> expired (elems ex_full ! 0) 10"
    by (simp add: lookup_def ex_full_def expired_def)
  have b: "lookup (items ex_full) ''b'' = Some 1 \<and> \<not> expired (elems ex_full ! 1) 10"
    by (simp add: lookup_def ex_full_def expired_def)
  note A = C10_Get_after_Close[OF i, of "''c''" None 0 10 ex_heap "''a''", folded ex_closed_def]
  note B = C10_Get_after_Close[OF i, of "''a''" None 0 10 ex_heap "''b''", folded ex_closed_def]
  have 1: "closed ex_closed"
    "Set ''c'' None 0 10 (ex_heap, ex_closed) = Some (Some ErrClosed, ex_heap, ex_closed)"
    using A by blast+
  have 2: "Delete ''a'' ex_closed = (Some ErrClosed, ex_closed)" using B by blast
  from B b obtain v' h' c' where g: "Get ''b'' 10 (ex_heap, ex_closed) = ((v', True), h', c')"
    and "bytes_of h' v' = bytes_of ex_heap (val (elems ex_full ! 1))"
    "\<forall>a. v' = Some a \<longrightarrow> a = length ex_heap"
    "lru c' = 1 # remove1 1 (lru ex_full)" "Keys c' = ''b'' # remove1 ''b'' (Keys ex_full)"
    "closed c'"
    by blast
  then have "bytes_of h' v' = [66] \<and> v' \<noteq> Some 1 \<and> lru c' = [1, 0] \<and>
      Keys c' = [''b'', ''a''] \<and> closed c'"
    unfolding k by (auto simp add: ex_full_def ex_heap_def bytes_of_def load_def)
  then have 3: "\<exists>v' h' c'. Get ''b'' 10 (ex_heap, ex_closed) = ((v', True), h', c') \<and>
      bytes_of h' v' = [66] \<and> v' \<noteq> Some 1 \<and> lru c' = [1, 0] \<and>
      Keys c' = [''b'', ''a''] \<and> closed c'"
    using g by blast
  from A a obtain c'' where g2: "Get ''a'' 10 (ex_heap, ex_closed) = ((None, False), ex_heap, c'')"
    and "items c'' = delete ''a'' (items ex_full)" "lru c'' = remove1 0 (lru ex_full)"
    "Keys c'' = remove1 ''a'' (Keys ex_full)" "closed c''"
    by blast
  then have "items c'' = [(''b'', 1)] \<and> lru c'' = [1] \<and> Keys c'' = [''b''] \<and> closed c''"
    unfolding k by (simp add: ex_full_def delete_def)
  then have 4: "\<exists>c'. Get ''a'' 10 (ex_heap, ex_closed) = ((None, False), ex_heap, c') \<and>
      items c' = [(''b'', 1)] \<and> lru c' = [1] \<and> Keys c' = [''b''] \<and> closed c'"
    using g2 by blast
  show ?thesis by (intro conjI i 1 2 3 4)
qed

section \<open>Set\<close>



lemma cache_inv_tick: "cache_inv c \<Longrightarrow> cache_inv (expiryTick now c)"
  by (simp add: expiryTick_def deleteExpiredLocked_keep cache_inv_keep)






lemma Set_effect:
  assumes inv: "cache_inv c" and o: "\<not> closed c"
  shows "\<exists>c'. Set k v ttl now (h, c) = Some (None, snd (cloneBytes v h), c') \<and>
     cache_inv c' \<and>
     lookup (items c') k = Some (handle_of k c) \<and>
     lru c' \<noteq> [] \<and> hd (lru c') = handle_of k c \<and> hd (Keys c') = k \<and>
     elems c' = elems (snd (store k v ttl now (h, c)))"
proof -
  let ?s = "snd (store k v ttl now (h, c))"
  let ?el = "handle_of k c"
  let ?c = "enforce now ?s"
  have invs: "cache_inv ?s" by (rule cache_inv_store[OF inv])
  have S: "Set k v ttl now (h, c) = Some (None, snd (cloneBytes v h), ?c)"
    by (rule Set_open[OF inv o])
  have inv': "cache_inv ?c" by (rule cache_inv_enforce[OF invs])
  have ls: "lru ?s = ?el # remove1 ?el (lru c)" by (rule store_lru[OF inv])
  have lks: "lookup (items ?s) k = Some ?el" by (rule store_lookup[OF inv])
  have ent: "key (elems ?s ! ?el) = k" "hasExpiry (elems ?s ! ?el) = (ttl > 0)"
    "expiresAt (elems ?s ! ?el) = expiry_of ttl now"
    using store_entry[OF inv, of k v ttl now h] by blast+
  have lv: "live ?s now ?el"
    unfolding live_def expired_def ent by (simp add: expiry_of_def)
  have e: "elems ?c = elems ?s" by (simp add: enforce_fields)
  have "lru ?c \<noteq> [] \<and> hd (lru ?c) = ?el \<and> lookup (items ?c) k = Some ?el"
  proof (cases "maxEntries ?s \<le> 0")
    case True
    then have "?c = ?s" by (simp add: enforce_def)
    then show ?thesis using ls lks by simp
  next
    case False
    then have pos: "0 < maxEntries ?s" by simp
    then obtain n where n: "nat (maxEntries ?s) = Suc n" by (cases "nat (maxEntries ?s)") auto
    have l: "lru ?c = ?el # take n (filter (live ?s now) (remove1 ?el (lru c)))"
      using enforce_lru[OF invs pos, of now] unfolding ls n using lv by simp
    have "(k, ?el) \<in> set (items ?s)" by (rule inv_lookup(1)[OF invs lks])
    moreover have "?el \<in> set (lru ?c)" unfolding l by simp
    moreover have "items ?c = filter (\<lambda>p. snd p \<in> set (lru ?c)) (items ?s)"
      unfolding enforce_lru[OF invs pos, of now] by (rule enforce_items[OF pos])
    ultimately have "(k, ?el) \<in> set (items ?c)" by simp
    then have "lookup (items ?c) k = Some ?el" by (rule inv_mem_lookup[OF inv'])
    then show ?thesis using l by simp
  qed
  then have 1: "lru ?c \<noteq> []" and 2: "hd (lru ?c) = ?el" and 3: "lookup (items ?c) k = Some ?el"
    by blast+
  have 4: "hd (Keys ?c) = k" unfolding Keys_def using 1 2 ent(1) e by (simp add: hd_map)
  show ?thesis
    by (rule exI[of _ ?c]) (intro conjI S inv' 3 1 2 4 e)
qed



section \<open>LRU eviction\<close>

text \<open>The equations that evaluate the operations on a concrete state.\<close>

lemmas eval_defs = Set_def store_def Get_def Delete_def New_def lookup_def cloneBytes_def
  evictIfNeededLocked_def deleteExpiredLocked_def deleteLocked_def deleteIfExpiredLocked_def
  expired_def PushFront_def MoveToFront_def Remove_def Back_def insert_new_def delete_def
  load_def zeroTime_def Let_def Keys_def Len_def expiryTick_def Close_def

lemma abc_trace:
  "run [OpSet ''a'' (Some 0) 0 t1, OpSet ''b'' (Some 1) 0 t2, OpGet ''a'' t3,
        OpSet ''c'' (Some 2) 0 t4] (abc_heap, New cap2) =
   Some ([[65], [66], [67], [65], [66], [65], [67]],
         \<lparr> maxEntries = 2, items = [(''c'', 2), (''a'', 0)], lru = [2, 0],
           elems = [\<lparr>key = ''a'', val = Some 3, expiresAt = 0, hasExpiry = False\<rparr>,
                    \<lparr>key = ''b'', val = Some 4, expiresAt = 0, hasExpiry = False\<rparr>,
                    \<lparr>key = ''c'', val = Some 6, expiresAt = 0, hasExpiry = False\<rparr>],
           cancelled = False, cleanupEvery = 0, closed = False \<rparr>)"
  by (simp add: eval_defs abc_heap_def cap2_def evictLoop.simps)


lemma Get_found_live:
  assumes "cache_inv c" "k \<in> set (Keys c)"
    "\<forall>el \<in> set (lru c). \<not> expired (elems c ! el) now"
  shows "snd (fst (Get k now (h, c)))"
proof -
  from assms(1,2) obtain el where l: "lookup (items c) k = Some el"
    using Keys_lookup by fastforce
  have "el \<in> set (lru c)" by (rule inv_lookup(2)[OF assms(1) l])
  then have "\<not> expired (elems c ! el) now" using assms(3) by blast
  then show ?thesis by (simp add: Get_live[OF l])
qed

lemma Get_absent_key:
  assumes "cache_inv c" "k \<notin> set (Keys c)"
  shows "Get k now (h, c) = ((None, False), h, c)"
  using assms Keys_lookup Get_absent by blast

lemma Set_new_live:
  assumes inv: "cache_inv c" and o: "\<not> closed c" and pos: "0 < maxEntries c"
    and new: "k \<notin> set (Keys c)"
    and alive: "\<forall>el \<in> set (lru c). \<not> expired (elems c ! el) now"
  shows "\<exists>h' c'. Set k v ttl now (h, c) = Some (None, h', c') \<and> cache_inv c' \<and>
     Keys c' = take (nat (maxEntries c)) (k # Keys c) \<and>
     maxEntries c' = maxEntries c \<and> \<not> closed c' \<and>
     (\<forall>el \<in> set (lru c'). \<not> expired (elems c' ! el) now) \<and>
     (ttl \<le> 0 \<and> (\<forall>el \<in> set (lru c). \<not> hasExpiry (elems c ! el)) \<longrightarrow>
        (\<forall>el \<in> set (lru c'). \<not> hasExpiry (elems c' ! el)))"
proof -
  let ?s = "snd (store k v ttl now (h, c))"
  let ?el = "length (elems c)"
  let ?c = "enforce now ?s"
  let ?f = "\<lambda>el. key (elems ?s ! el)"
  have none: "lookup (items c) k = None" using new Keys_lookup[OF inv] by blast
  have hd: "handle_of k c = ?el" using none by (simp add: handle_of_def)
  have invs: "cache_inv ?s" by (rule cache_inv_store[OF inv])
  have S: "Set k v ttl now (h, c) = Some (None, snd (cloneBytes v h), ?c)"
    by (rule Set_open[OF inv o])
  have inv': "cache_inv ?c" by (rule cache_inv_enforce[OF invs])
  have nin: "?el \<notin> set (lru c)" by (rule inv_fresh[OF inv])
  have ls: "lru ?s = ?el # lru c"
    using store_lru[OF inv, of k v ttl now h] nin unfolding hd by (simp add: remove1_idem)
  have same: "\<And>el. el \<in> set (lru c) \<Longrightarrow> elems ?s ! el = elems c ! el"
  proof -
    fix el assume m: "el \<in> set (lru c)"
    have "el < length (elems c)" by (rule inv_lru_bound[OF inv m])
    moreover have "el \<noteq> handle_of k c" using m nin hd by auto
    ultimately show "elems ?s ! el = elems c ! el" by (rule store_other)
  qed
  have ent: "key (elems ?s ! ?el) = k" "hasExpiry (elems ?s ! ?el) = (ttl > 0)"
    "expiresAt (elems ?s ! ?el) = expiry_of ttl now"
    using store_entry[OF inv, of k v ttl now h] unfolding hd by blast+
  have lv: "live ?s now ?el"
    unfolding live_def expired_def ent by (simp add: expiry_of_def)
  have lvs: "\<forall>el \<in> set (lru ?s). live ?s now el"
    unfolding ls using lv alive same by (simp add: live_def)
  then have fl: "filter (live ?s now) (lru ?s) = lru ?s" by simp
  have ms: "maxEntries ?s = maxEntries c" by (simp add: store_flags)
  have l': "lru ?c = take (nat (maxEntries c)) (lru ?s)"
    using enforce_lru[OF invs, of now] pos unfolding ms fl by simp
  have e': "elems ?c = elems ?s" by (simp add: enforce_fields)
  have "map ?f (lru c) = map (\<lambda>el. key (elems c ! el)) (lru c)"
    using same by (intro map_cong) auto
  then have "map ?f (lru ?s) = k # Keys c" unfolding ls Keys_def using ent(1) by simp
  then have "take (nat (maxEntries c)) (map ?f (lru ?s)) = take (nat (maxEntries c)) (k # Keys c)"
    by (rule arg_cong)
  then have K: "Keys ?c = take (nat (maxEntries c)) (k # Keys c)"
    unfolding Keys_def l' e' take_map .
  have M: "maxEntries ?c = maxEntries c" "\<not> closed ?c"
    using o by (simp_all add: enforce_fields store_flags)
  have sub: "set (lru ?c) \<subseteq> set (lru ?s)" unfolding l' by (auto dest: in_set_takeD)
  then have A: "\<forall>el \<in> set (lru ?c). \<not> expired (elems ?c ! el) now"
    unfolding e' using lvs by (auto simp add: live_def)
  have B: "ttl \<le> 0 \<and> (\<forall>el \<in> set (lru c). \<not> hasExpiry (elems c ! el)) \<longrightarrow>
        (\<forall>el \<in> set (lru ?c). \<not> hasExpiry (elems ?c ! el))"
  proof
    assume a: "ttl \<le> 0 \<and> (\<forall>el \<in> set (lru c). \<not> hasExpiry (elems c ! el))"
    then have "\<forall>el \<in> set (lru ?s). \<not> hasExpiry (elems ?s ! el)"
      unfolding ls using ent(2) same by simp
    then show "\<forall>el \<in> set (lru ?c). \<not> hasExpiry (elems ?c ! el)"
      unfolding e' using sub by blast
  qed
  show ?thesis
    by (rule exI[of _ "snd (cloneBytes v h)"], rule exI[of _ ?c])
      (intro conjI S inv' K M A B)
qed

lemma Set_full_evicts_lru:
  assumes inv: "cache_inv c" and o: "\<not> closed c" and pos: "0 < maxEntries c"
    and full: "Len c = maxEntries c" and new: "k \<notin> set (Keys c)"
    and alive: "\<forall>el \<in> set (lru c). \<not> expired (elems c ! el) now"
  shows "\<exists>h' c'. Set k v ttl now (h, c) = Some (None, h', c') \<and> cache_inv c' \<and>
     Keys c' = k # butlast (Keys c) \<and>
     last (Keys c) \<notin> set (Keys c') \<and>
     (\<forall>el \<in> set (lru c'). \<not> expired (elems c' ! el) now)"
proof -
  from Set_new_live[OF inv o pos new alive, of v ttl h]
  obtain h' c' where S: "Set k v ttl now (h, c) = Some (None, h', c')"
    and inv': "cache_inv c'" and K0: "Keys c' = take (nat (maxEntries c)) (k # Keys c)"
    and A: "\<forall>el \<in> set (lru c'). \<not> expired (elems c' ! el) now"
    by (elim exE conjE) (rule that)
  have len: "length (items c) = length (lru c)" by (rule inv_length[OF inv])
  have n: "nat (maxEntries c) = length (Keys c)" using full len by (simp add: Len_def Keys_def)
  have kne: "Keys c \<noteq> []" using pos n by auto
  have "take (length (Keys c)) (k # Keys c) = k # take (length (Keys c) - 1) (Keys c)"
    using kne by (cases "Keys c") simp_all
  also have "take (length (Keys c) - 1) (Keys c) = butlast (Keys c)"
    by (simp add: butlast_conv_take)
  finally have K: "Keys c' = k # butlast (Keys c)" unfolding K0 n .
  have "last (Keys c) \<in> set (Keys c)" using kne by simp
  then have a: "last (Keys c) \<noteq> k" using new by auto
  have "last (Keys c) \<notin> set (butlast (Keys c))"
    using Keys_distinct[OF inv] kne
    by (metis append_butlast_last_id distinct_append disjoint_iff list.set_intros(1))
  then have X: "last (Keys c) \<notin> set (Keys c')" unfolding K using a by simp
  show ?thesis
    by (rule exI[of _ h'], rule exI[of _ c']) (intro conjI S inv' K X A)
qed

lemma run_append:
  "run (xs @ ys) hc = (case run xs hc of None \<Rightarrow> None | Some hc' \<Rightarrow> run ys hc')"
  by (induction xs arbitrary: hc) (simp_all split: option.splits)

lemma cache_inv_New: "cache_inv (New cfg)"
  by (simp add: cache_inv_def New_def)

lemma fill_room:
  assumes "distinct ks" and "int (length ks) \<le> MaxEntries cfg"
  shows "\<exists>h' c'. run (map (\<lambda>x. OpSet x (vf x) 0 (tf x)) ks) (h, New cfg) = Some (h', c') \<and>
     cache_inv c' \<and> \<not> closed c' \<and> maxEntries c' = MaxEntries cfg \<and> Keys c' = rev ks \<and>
     (\<forall>el \<in> set (lru c'). \<not> hasExpiry (elems c' ! el))"
  using assms
proof (induction ks rule: rev_induct)
  case Nil
  show ?case by (simp add: cache_inv_New) (simp add: New_def Keys_def)
next
  case (snoc k ks)
  have d: "distinct ks" and new: "k \<notin> set ks" and le: "int (length ks) < MaxEntries cfg"
    using snoc.prems by simp_all
  have le': "int (length ks) \<le> MaxEntries cfg" using le by simp
  from snoc.IH[OF d le']
  obtain h1 c1 where r: "run (map (\<lambda>x. OpSet x (vf x) 0 (tf x)) ks) (h, New cfg) = Some (h1, c1)"
    and inv: "cache_inv c1" and o: "\<not> closed c1" and m: "maxEntries c1 = MaxEntries cfg"
    and K: "Keys c1 = rev ks" and nx: "\<forall>el \<in> set (lru c1). \<not> hasExpiry (elems c1 ! el)"
    by (elim exE conjE) (rule that)
  have pos: "0 < maxEntries c1" using le m by simp
  have new1: "k \<notin> set (Keys c1)" unfolding K using new by simp
  have alive: "\<forall>el \<in> set (lru c1). \<not> expired (elems c1 ! el) (tf k)"
    using nx by (simp add: expired_def)
  from Set_new_live[OF inv o pos new1 alive, of "vf k" 0 h1]
  obtain h2 c2 where S: "Set k (vf k) 0 (tf k) (h1, c1) = Some (None, h2, c2)"
    and inv2: "cache_inv c2" and K2: "Keys c2 = take (nat (maxEntries c1)) (k # Keys c1)"
    and m2: "maxEntries c2 = maxEntries c1" and o2: "\<not> closed c2"
    and nx2: "(0::int) \<le> 0 \<and> (\<forall>el \<in> set (lru c1). \<not> hasExpiry (elems c1 ! el)) \<longrightarrow>
        (\<forall>el \<in> set (lru c2). \<not> hasExpiry (elems c2 ! el))"
    by (elim exE conjE) (rule that)
  have "length (k # Keys c1) \<le> nat (maxEntries c1)" unfolding K m using le by simp
  then have K2': "Keys c2 = rev (ks @ [k])" unfolding K2 using K by simp
  have nx2': "\<forall>el \<in> set (lru c2). \<not> hasExpiry (elems c2 ! el)" using nx2 nx by simp
  have R: "run (map (\<lambda>x. OpSet x (vf x) 0 (tf x)) (ks @ [k])) (h, New cfg) = Some (h2, c2)"
    by (simp add: run_append r S)
  show ?case
    by (rule exI[of _ h2], rule exI[of _ c2]) (intro conjI R inv2 o2 m2[unfolded m] K2' nx2')
qed

lemma Len_Keys: "cache_inv c \<Longrightarrow> Len c = int (length (Keys c))"
  by (simp add: Len_def Keys_def inv_length)

lemma fill_then_one:
  assumes ne: "ks \<noteq> []" and d: "distinct (ks @ [k])"
    and m: "MaxEntries cfg = int (length ks)"
  shows "\<exists>h' c'. run (map (\<lambda>x. OpSet x (vf x) 0 (tf x)) ks @ [OpSet k v ttl t]) (h, New cfg) =
        Some (h', c') \<and>
     Keys c' = k # rev (tl ks) \<and> hd ks \<notin> set (Keys c') \<and>
     (\<forall>h2. Get (hd ks) t (h2, c') = ((None, False), h2, c')) \<and>
     (\<forall>k' h2. k' \<in> set (Keys c') \<longrightarrow> snd (fst (Get k' t (h2, c'))))"
proof -
  have dk: "distinct ks" and new: "k \<notin> set ks" using d by simp_all
  have le: "int (length ks) \<le> MaxEntries cfg" using m by simp
  from fill_room[OF dk le, of vf tf h]
  obtain h1 c1 where r: "run (map (\<lambda>x. OpSet x (vf x) 0 (tf x)) ks) (h, New cfg) = Some (h1, c1)"
    and inv: "cache_inv c1" and o: "\<not> closed c1" and m1: "maxEntries c1 = MaxEntries cfg"
    and K: "Keys c1 = rev ks" and nx: "\<forall>el \<in> set (lru c1). \<not> hasExpiry (elems c1 ! el)"
    by (elim exE conjE) (rule that)
  have pos: "0 < maxEntries c1" unfolding m1 m using ne by simp
  have full: "Len c1 = maxEntries c1" unfolding Len_Keys[OF inv] K m1 m by simp
  have new1: "k \<notin> set (Keys c1)" unfolding K using new by simp
  have alive: "\<forall>el \<in> set (lru c1). \<not> expired (elems c1 ! el) t"
    using nx by (simp add: expired_def)
  from Set_full_evicts_lru[OF inv o pos full new1 alive, of v ttl h1]
  obtain h2 c2 where S: "Set k v ttl t (h1, c1) = Some (None, h2, c2)"
    and inv2: "cache_inv c2" and K2: "Keys c2 = k # butlast (Keys c1)"
    and X: "last (Keys c1) \<notin> set (Keys c2)"
    and A: "\<forall>el \<in> set (lru c2). \<not> expired (elems c2 ! el) t"
    by (elim exE conjE) (rule that)
  have R: "run (map (\<lambda>x. OpSet x (vf x) 0 (tf x)) ks @ [OpSet k v ttl t]) (h, New cfg) =
      Some (h2, c2)"
    by (simp add: run_append r S)
  have b: "butlast (rev ks) = rev (tl ks)" by (simp add: butlast_rev)
  have l: "last (rev ks) = hd ks" using ne by (simp add: last_rev)
  have 1: "Keys c2 = k # rev (tl ks)" using K2 unfolding K b .
  have 2: "hd ks \<notin> set (Keys c2)" using X unfolding K l .
  have 3: "\<forall>h2. Get (hd ks) t (h2, c2) = ((None, False), h2, c2)"
    using Get_absent_key[OF inv2 2] by blast
  have 4: "\<forall>k' h2. k' \<in> set (Keys c2) \<longrightarrow> snd (fst (Get k' t (h2, c2)))"
    using Get_found_live[OF inv2 _ A] by blast
  show ?thesis
    by (rule exI[of _ h2], rule exI[of _ c2]) (intro conjI R 1 2 3 4)
qed

text \<open>
  C4. From a fresh cache of capacity 2, \<^verbatim>\<open>Set(a)\<close>, \<^verbatim>\<open>Set(b)\<close>, \<^verbatim>\<open>Get(a)\<close>,
  \<^verbatim>\<open>Set(c)\<close> without TTLs, at any times, leave the keys \<open>c, a\<close>: then \<^verbatim>\<open>Get(b)\<close> is
  not-found and \<^verbatim>\<open>Get(a)\<close>, \<^verbatim>\<open>Get(c)\<close> are found. In general, on an open cache that
  holds exactly \<open>maxEntries > 0\<close> entries, none of them expired at \<open>now\<close>, \<^verbatim>\<open>Set\<close> of a
  new key evicts exactly the key at the LRU end of the recency order (the order that
  \<^verbatim>\<open>Set\<close> and \<^verbatim>\<open>Get\<close> maintain, see C2, C3 and C6): the keys become the new key followed
  by the old ones without the last, the evicted key is not-found and every remaining key is
  found. In particular, after \<^verbatim>\<open>Set\<close> of \<open>N\<close> distinct keys without TTL into a fresh cache
  with \<open>maxEntries = N\<close>, \<^verbatim>\<open>Set\<close> of one more key evicts the key inserted first.
\<close>

theorem C4_LRU_eviction:
  "(\<exists>h' c'. run [OpSet ''a'' (Some 0) 0 t1, OpSet ''b'' (Some 1) 0 t2, OpGet ''a'' t3,
                  OpSet ''c'' (Some 2) 0 t4] (abc_heap, New cap2) = Some (h', c') \<and>
      Keys c' = [''c'', ''a''] \<and>
      \<not> snd (fst (Get ''b'' t5 (h', c'))) \<and>
      snd (fst (Get ''a'' t6 (snd (Get ''b'' t5 (h', c'))))) \<and>
      snd (fst (Get ''c'' t7 (snd (Get ''a'' t6 (snd (Get ''b'' t5 (h', c')))))))) \<and>
   (\<forall>c k v ttl now h.
      cache_inv c \<and> \<not> closed c \<and> 0 < maxEntries c \<and> Len c = maxEntries c \<and>
      k \<notin> set (Keys c) \<and> (\<forall>el \<in> set (lru c). \<not> expired (elems c ! el) now) \<longrightarrow>
      (\<exists>h' c'. Set k v ttl now (h, c) = Some (None, h', c') \<and>
         Keys c' = k # butlast (Keys c) \<and>
         last (Keys c) \<notin> set (Keys c') \<and>
         (\<forall>h2. Get (last (Keys c)) now (h2, c') = ((None, False), h2, c')) \<and>
         (\<forall>k' h2. k' \<in> set (Keys c') \<longrightarrow> snd (fst (Get k' now (h2, c')))))) \<and>
   (\<forall>ks k vf tf v ttl t h cfg.
      ks \<noteq> [] \<and> distinct (ks @ [k]) \<and> MaxEntries cfg = int (length ks) \<longrightarrow>
      (\<exists>h' c'. run (map (\<lambda>x. OpSet x (vf x) 0 (tf x)) ks @ [OpSet k v ttl t]) (h, New cfg) =
           Some (h', c') \<and>
         Keys c' = k # rev (tl ks) \<and> hd ks \<notin> set (Keys c') \<and>
         (\<forall>h2. Get (hd ks) t (h2, c') = ((None, False), h2, c')) \<and>
         (\<forall>k' h2. k' \<in> set (Keys c') \<longrightarrow> snd (fst (Get k' t (h2, c'))))))"
proof -
  have A: "\<exists>h' c'. run [OpSet ''a'' (Some 0) 0 t1, OpSet ''b'' (Some 1) 0 t2, OpGet ''a'' t3,
                  OpSet ''c'' (Some 2) 0 t4] (abc_heap, New cap2) = Some (h', c') \<and>
      Keys c' = [''c'', ''a''] \<and>
      \<not> snd (fst (Get ''b'' t5 (h', c'))) \<and>
      snd (fst (Get ''a'' t6 (snd (Get ''b'' t5 (h', c'))))) \<and>
      snd (fst (Get ''c'' t7 (snd (Get ''a'' t6 (snd (Get ''b'' t5 (h', c')))))))"
    unfolding abc_trace by (simp add: eval_defs)
  have B: "\<forall>c k v ttl now h.
      cache_inv c \<and> \<not> closed c \<and> 0 < maxEntries c \<and> Len c = maxEntries c \<and>
      k \<notin> set (Keys c) \<and> (\<forall>el \<in> set (lru c). \<not> expired (elems c ! el) now) \<longrightarrow>
      (\<exists>h' c'. Set k v ttl now (h, c) = Some (None, h', c') \<and>
         Keys c' = k # butlast (Keys c) \<and>
         last (Keys c) \<notin> set (Keys c') \<and>
         (\<forall>h2. Get (last (Keys c)) now (h2, c') = ((None, False), h2, c')) \<and>
         (\<forall>k' h2. k' \<in> set (Keys c') \<longrightarrow> snd (fst (Get k' now (h2, c')))))"
  proof (intro allI impI)
    fix c k v ttl now h
    assume a: "cache_inv c \<and> \<not> closed c \<and> 0 < maxEntries c \<and> Len c = maxEntries c \<and>
      k \<notin> set (Keys c) \<and> (\<forall>el \<in> set (lru c). \<not> expired (elems c ! el) now)"
    then have inv: "cache_inv c" and o: "\<not> closed c" and pos: "0 < maxEntries c"
      and full: "Len c = maxEntries c" and new: "k \<notin> set (Keys c)"
      and alive: "\<forall>el \<in> set (lru c). \<not> expired (elems c ! el) now" by blast+
    from Set_full_evicts_lru[OF inv o pos full new alive, of v ttl h]
    obtain h' c' where S: "Set k v ttl now (h, c) = Some (None, h', c')"
      and inv': "cache_inv c'" and K: "Keys c' = k # butlast (Keys c)"
      and X: "last (Keys c) \<notin> set (Keys c')"
      and L: "\<forall>el \<in> set (lru c'). \<not> expired (elems c' ! el) now"
      by (elim exE conjE) (rule that)
    have G1: "\<forall>h2. Get (last (Keys c)) now (h2, c') = ((None, False), h2, c')"
      using Get_absent_key[OF inv' X] by blast
    have G2: "\<forall>k' h2. k' \<in> set (Keys c') \<longrightarrow> snd (fst (Get k' now (h2, c')))"
      using Get_found_live[OF inv' _ L] by blast
    show "\<exists>h' c'. Set k v ttl now (h, c) = Some (None, h', c') \<and>
         Keys c' = k # butlast (Keys c) \<and>
         last (Keys c) \<notin> set (Keys c') \<and>
         (\<forall>h2. Get (last (Keys c)) now (h2, c') = ((None, False), h2, c')) \<and>
         (\<forall>k' h2. k' \<in> set (Keys c') \<longrightarrow> snd (fst (Get k' now (h2, c'))))"
      by (rule exI[of _ h'], rule exI[of _ c']) (intro conjI S K X G1 G2)
  qed
  have C: "(\<forall>ks k vf tf v ttl t h cfg.
      ks \<noteq> [] \<and> distinct (ks @ [k]) \<and> MaxEntries cfg = int (length ks) \<longrightarrow>
      (\<exists>h' c'. run (map (\<lambda>x. OpSet x (vf x) 0 (tf x)) ks @ [OpSet k v ttl t]) (h, New cfg) =
           Some (h', c') \<and>
         Keys c' = k # rev (tl ks) \<and> hd ks \<notin> set (Keys c') \<and>
         (\<forall>h2. Get (hd ks) t (h2, c') = ((None, False), h2, c')) \<and>
         (\<forall>k' h2. k' \<in> set (Keys c') \<longrightarrow> snd (fst (Get k' t (h2, c'))))))"
    using fill_then_one by blast
  show ?thesis by (intro conjI A B C)
qed


theorem C4_LRU_eviction_witness:
  "run [OpSet ''a'' (Some 0) 0 1, OpSet ''b'' (Some 1) 0 2, OpGet ''a'' 3] (abc_heap, New cap2) =
     Some ([[65], [66], [67], [65], [66], [65]], ab_cache) \<and>
   cache_inv ab_cache \<and> \<not> closed ab_cache \<and> 0 < maxEntries ab_cache \<and>
   Len ab_cache = maxEntries ab_cache \<and> ''c'' \<notin> set (Keys ab_cache) \<and>
   \<not> expired (elems ab_cache ! 0) 4 \<and> \<not> expired (elems ab_cache ! 1) 4 \<and>
   (\<exists>h' c'. Set ''c'' (Some 2) 0 4 ([[65], [66], [67], [65], [66], [65]], ab_cache) =
        Some (None, h', c') \<and>
      Keys c' = [''c'', ''a''] \<and> ''b'' \<notin> set (Keys c') \<and>
      \<not> snd (fst (Get ''b'' 4 (h', c'))) \<and>
      snd (fst (Get ''a'' 4 (h', c'))) \<and> snd (fst (Get ''c'' 4 (h', c')))) \<and>
   MaxEntries cap2 = 2 \<and>
   (\<exists>h' c'. run (map (\<lambda>x. OpSet x None 0 0) [''a'', ''b''] @ [OpSet ''c'' None 5 9])
        (abc_heap, New cap2) = Some (h', c') \<and>
      Keys c' = [''c'', ''b''] \<and> ''a'' \<notin> set (Keys c'))"
proof -
  let ?h = "[[65], [66], [67], [65], [66], [65]] :: heap"
  have r: "run [OpSet ''a'' (Some 0) 0 1, OpSet ''b'' (Some 1) 0 2, OpGet ''a'' 3]
      (abc_heap, New cap2) = Some (?h, ab_cache)"
    by (simp add: eval_defs abc_heap_def cap2_def ab_cache_def evictLoop.simps)
  have i: "cache_inv ab_cache" by (auto simp add: cache_inv_def ab_cache_def)
  have o: "\<not> closed ab_cache" and p: "0 < maxEntries ab_cache"
    and f: "Len ab_cache = maxEntries ab_cache"
    by (simp_all add: ab_cache_def Len_def)
  have K: "Keys ab_cache = [''a'', ''b'']" by (simp add: Keys_def ab_cache_def)
  have n: "''c'' \<notin> set (Keys ab_cache)" unfolding K by simp
  have x: "\<not> expired (elems ab_cache ! 0) 4" "\<not> expired (elems ab_cache ! 1) 4"
    by (simp_all add: expired_def ab_cache_def)
  have a: "\<forall>el \<in> set (lru ab_cache). \<not> expired (elems ab_cache ! el) 4"
    by (simp add: expired_def ab_cache_def)
  have "cache_inv ab_cache \<and> \<not> closed ab_cache \<and> 0 < maxEntries ab_cache \<and>
      Len ab_cache = maxEntries ab_cache \<and> ''c'' \<notin> set (Keys ab_cache) \<and>
      (\<forall>el \<in> set (lru ab_cache). \<not> expired (elems ab_cache ! el) 4)"
    by (intro conjI i o p f n a)
  with C4_LRU_eviction
  have "\<exists>h' c'. Set ''c'' (Some 2) 0 4 (?h, ab_cache) = Some (None, h', c') \<and>
         Keys c' = ''c'' # butlast (Keys ab_cache) \<and>
         last (Keys ab_cache) \<notin> set (Keys c') \<and>
         (\<forall>h2. Get (last (Keys ab_cache)) 4 (h2, c') = ((None, False), h2, c')) \<and>
         (\<forall>k' h2. k' \<in> set (Keys c') \<longrightarrow> snd (fst (Get k' 4 (h2, c'))))"
    by blast
  then obtain h' c' where S: "Set ''c'' (Some 2) 0 4 (?h, ab_cache) = Some (None, h', c')"
    and k1: "Keys c' = ''c'' # butlast (Keys ab_cache)"
    and k2: "last (Keys ab_cache) \<notin> set (Keys c')"
    and k3: "\<forall>h2. Get (last (Keys ab_cache)) 4 (h2, c') = ((None, False), h2, c')"
    and k4: "\<forall>k' h2. k' \<in> set (Keys c') \<longrightarrow> snd (fst (Get k' 4 (h2, c')))"
    by (elim exE conjE) (rule that)
  have g1: "Keys c' = [''c'', ''a'']" using k1 unfolding K by simp
  have g2: "''b'' \<notin> set (Keys c')" using k2 unfolding K by simp
  have g3: "\<not> snd (fst (Get ''b'' 4 (h', c')))" using k3 unfolding K by simp
  have g4: "snd (fst (Get ''a'' 4 (h', c')))" "snd (fst (Get ''c'' 4 (h', c')))"
    using k4 unfolding g1 by simp_all
  have E: "\<exists>h' c'. Set ''c'' (Some 2) 0 4 (?h, ab_cache) = Some (None, h', c') \<and>
      Keys c' = [''c'', ''a''] \<and> ''b'' \<notin> set (Keys c') \<and>
      \<not> snd (fst (Get ''b'' 4 (h', c'))) \<and>
      snd (fst (Get ''a'' 4 (h', c'))) \<and> snd (fst (Get ''c'' 4 (h', c')))"
    by (rule exI[of _ h'], rule exI[of _ c']) (intro conjI S g1 g2 g3 g4)
  have m: "MaxEntries cap2 = 2" by (simp add: cap2_def)
  have hyp: "[''a'', ''b''] \<noteq> [] \<and> distinct ([''a'', ''b''] @ [''c'']) \<and>
      MaxEntries cap2 = int (length [''a'', ''b''])"
    by (simp add: cap2_def)
  have "\<exists>h' c'. run (map (\<lambda>x. OpSet x None 0 0) [''a'', ''b''] @ [OpSet ''c'' None 5 9])
        (abc_heap, New cap2) = Some (h', c') \<and>
      Keys c' = ''c'' # rev (tl [''a'', ''b'']) \<and> hd [''a'', ''b''] \<notin> set (Keys c') \<and>
      (\<forall>h2. Get (hd [''a'', ''b'']) 9 (h2, c') = ((None, False), h2, c')) \<and>
      (\<forall>k' h2. k' \<in> set (Keys c') \<longrightarrow> snd (fst (Get k' 9 (h2, c'))))"
    by (rule C4_LRU_eviction[THEN conjunct2, THEN conjunct2,
          THEN spec[where x = "[''a'', ''b'']"], THEN spec[where x = "''c''"],
          THEN spec[where x = "\<lambda>x. None"], THEN spec[where x = "\<lambda>x. 0"],
          THEN spec[where x = None], THEN spec[where x = 5], THEN spec[where x = 9],
          THEN spec[where x = abc_heap], THEN spec[where x = cap2], THEN mp, OF hyp])
  then obtain h5 c5 where R5: "run (map (\<lambda>x. OpSet x None 0 0) [''a'', ''b''] @
        [OpSet ''c'' None 5 9]) (abc_heap, New cap2) = Some (h5, c5)"
    and K5: "Keys c5 = ''c'' # rev (tl [''a'', ''b''])"
    and H5: "hd [''a'', ''b''] \<notin> set (Keys c5)"
    by (elim exE conjE) (rule that)
  have K5': "Keys c5 = [''c'', ''b'']" using K5 by simp
  have H5': "''a'' \<notin> set (Keys c5)" using H5 by simp
  have F: "\<exists>h' c'. run (map (\<lambda>x. OpSet x None 0 0) [''a'', ''b''] @ [OpSet ''c'' None 5 9])
        (abc_heap, New cap2) = Some (h', c') \<and>
      Keys c' = [''c'', ''b''] \<and> ''a'' \<notin> set (Keys c')"
    by (rule exI[of _ h5], rule exI[of _ c5]) (intro conjI R5 K5' H5')
  show ?thesis by (intro conjI r i o p f n x E m F)
qed

section \<open>The joint invariant\<close>

lemma Keys_store:
  assumes "cache_inv c"
  shows "Keys (snd (store k v ttl now (h, c))) = k # filter (\<lambda>x. x \<noteq> k) (Keys c)"
proof -
  let ?s = "snd (store k v ttl now (h, c))"
  let ?el = "handle_of k c"
  have ls: "lru ?s = ?el # remove1 ?el (lru c)" by (rule store_lru[OF assms])
  have k: "key (elems ?s ! ?el) = k" using store_entry[OF assms, of k v ttl now h] by blast
  have "map (\<lambda>el. key (elems ?s ! el)) (remove1 ?el (lru c)) =
        map (\<lambda>el. key (elems c ! el)) (remove1 ?el (lru c))"
  proof (rule map_cong[OF refl])
    fix x assume "x \<in> set (remove1 ?el (lru c))"
    then have "x \<in> set (lru c)" using set_remove1_subset by fast
    then have "x < length (elems c)" by (rule inv_lru_bound[OF assms])
    then show "key (elems ?s ! x) = key (elems c ! x)" by (rule store_key[OF assms])
  qed
  also have "\<dots> = filter (\<lambda>x. x \<noteq> k) (Keys c)"
  proof (cases "lookup (items c) k")
    case None
    have "?el \<notin> set (lru c)" using inv_fresh[OF assms] None by (simp add: handle_of_def)
    then have 1: "remove1 ?el (lru c) = lru c" by (simp add: remove1_idem)
    have "k \<notin> set (Keys c)" using None Keys_lookup[OF assms] by blast
    then have "filter (\<lambda>x. x \<noteq> k) (Keys c) = Keys c" by (intro filter_True) auto
    then show ?thesis unfolding 1 by (simp add: Keys_def)
  next
    case (Some el)
    then have e: "?el = el" by (simp add: handle_of_def)
    have "remove1 k (Keys c) = filter (\<lambda>x. x \<noteq> k) (Keys c)"
      by (rule remove1_filter[OF Keys_distinct[OF assms]])
    then show ?thesis unfolding e using Keys_remove[OF assms Some] by simp
  qed
  finally show ?thesis unfolding Keys_def ls using k by simp
qed

lemma Keys_enforce_sub:
  assumes "cache_inv c"
  shows "Keys (enforce now c) = filter (\<lambda>y. y \<in> set (Keys (enforce now c))) (Keys c)"
proof (cases "maxEntries c \<le> 0")
  case True
  then show ?thesis by (simp add: enforce_def)
next
  case False
  then show ?thesis using Keys_keep_sub[OF assms] by (simp add: enforce_def)
qed

lemma filter_self: "filter (\<lambda>y. y \<in> set xs) xs = xs"
  by simp

lemma Keys_deleteLocked_sub:
  assumes "cache_inv c"
  shows "Keys (deleteLocked k c) = filter (\<lambda>y. y \<in> set (Keys (deleteLocked k c))) (Keys c)"
  unfolding deleteLocked_keep[OF assms] by (rule Keys_keep_sub[OF assms])

lemma Keys_sweep_sub:
  assumes "cache_inv c"
  shows "Keys (snd (deleteExpiredLocked now c)) =
     filter (\<lambda>y. y \<in> set (Keys (snd (deleteExpiredLocked now c)))) (Keys c)"
  unfolding deleteExpiredLocked_keep[OF assms] by (rule Keys_keep_sub[OF assms])

lemma filter_promote:
  assumes "set ks' \<subseteq> set (k # ks)" "ks' = filter (\<lambda>y. y \<in> set ks') (k # filter (\<lambda>x. x \<noteq> k) ks)"
  shows "k \<in> set ks' \<Longrightarrow> hd ks' = k"
proof -
  assume "k \<in> set ks'"
  then have "filter (\<lambda>y. y \<in> set ks') (k # filter (\<lambda>x. x \<noteq> k) ks) =
      k # filter (\<lambda>y. y \<in> set ks') (filter (\<lambda>x. x \<noteq> k) ks)" by simp
  then show ?thesis using assms(2) by (metis list.sel(1))
qed

lemma step_order:
  assumes inv: "cache_inv c"
  shows "\<exists>h' c'. step x (h, c) = Some (h', c') \<and> cache_inv c' \<and>
     Keys c' = filter (\<lambda>y. y \<in> set (Keys c')) (promote (touched x (h, c)) (Keys c)) \<and>
     (\<forall>k. touched x (h, c) = Some k \<longrightarrow> hd (Keys c') = k \<and> k \<in> set (Keys c'))"
proof (cases x)
  case (OpSet k v ttl now)
  show ?thesis
  proof (cases "closed c")
    case True
    have 1: "step x (h, c) = Some (h, c)" using True OpSet by (simp add: Set_closed)
    have 2: "touched x (h, c) = None" using True OpSet by simp
    show ?thesis unfolding 1 2 using inv by simp
  next
    case False
    let ?s = "snd (store k v ttl now (h, c))"
    from Set_effect[OF inv False, of k v ttl now h]
    obtain c' where S: "Set k v ttl now (h, c) = Some (None, snd (cloneBytes v h), c')"
      and inv': "cache_inv c'" and l: "lookup (items c') k = Some (handle_of k c)"
      and hk: "hd (Keys c') = k"
      by (elim exE conjE) (rule that)
    have c': "c' = enforce now ?s" using S Set_open[OF inv False, of k v ttl now h] by simp
    have 1: "step x (h, c) = Some (snd (cloneBytes v h), c')" using OpSet S by simp
    have 2: "touched x (h, c) = Some k" using False OpSet by simp
    have 3: "Keys c' = filter (\<lambda>y. y \<in> set (Keys c')) (k # filter (\<lambda>x. x \<noteq> k) (Keys c))"
      unfolding c' using Keys_enforce_sub[OF cache_inv_store[OF inv, of k v ttl now h], of now]
      unfolding Keys_store[OF inv] .
    have 4: "k \<in> set (Keys c')" using l Keys_lookup[OF inv'] by simp
    show ?thesis unfolding 1 2 using inv' 3 4 hk by simp
  qed
next
  case (OpGet k now)
  show ?thesis
  proof (cases "lookup (items c) k")
    case None
    have g: "Get k now (h, c) = ((None, False), h, c)" by (rule Get_absent[OF None])
    show ?thesis using OpGet inv by (simp add: g)
  next
    case (Some el)
    show ?thesis
    proof (cases "expired (elems c ! el) now")
      case True
      have g: "Get k now (h, c) = ((None, False), h, deleteLocked k c)"
        by (rule Get_expired[OF Some True])
      show ?thesis using OpGet cache_inv_deleteLocked[OF inv] Keys_deleteLocked_sub[OF inv, of k]
        by (simp add: g)
    next
      case False
      from Get_live_effect[OF inv Some False, of h]
      obtain v' h' c' where g: "Get k now (h, c) = ((v', True), h', c')"
        and K: "Keys c' = k # remove1 k (Keys c)" and inv': "cache_inv c'"
        by (elim exE conjE) (rule that)
      have K': "Keys c' = k # filter (\<lambda>x. x \<noteq> k) (Keys c)"
        unfolding K using remove1_filter[OF Keys_distinct[OF inv]] by simp
      have "filter (\<lambda>y. y \<in> set (Keys c')) (Keys c') = Keys c'" by simp
      then have 3: "Keys c' = filter (\<lambda>y. y \<in> set (Keys c')) (k # filter (\<lambda>x. x \<noteq> k) (Keys c))"
        unfolding K'[symmetric] by simp
      have 4: "hd (Keys c') = k" "k \<in> set (Keys c')" unfolding K by simp_all
      have 1: "step x (h, c) = Some (h', c')" using OpGet g by simp
      have 2: "touched x (h, c) = Some k" using OpGet g by simp
      show ?thesis unfolding 1 2 using inv' 3 4 by simp
    qed
  qed
next
  case (OpDelete k)
  show ?thesis
  proof (cases "closed c")
    case True
    then show ?thesis using OpDelete inv by (simp add: Delete_closed)
  next
    case False
    then show ?thesis
      using OpDelete cache_inv_deleteLocked[OF inv] Keys_deleteLocked_sub[OF inv, of k]
      by (simp add: Delete_open)
  qed
next
  case OpLen
  then show ?thesis using inv by simp
next
  case OpKeys
  then show ?thesis using inv by simp
next
  case OpClose
  have "Keys (snd (Close c)) = Keys c" by (simp add: Keys_def Close_fields)
  then show ?thesis using OpClose cache_inv_Close[OF inv] by simp
next
  case (OpTick now)
  then show ?thesis
    using cache_inv_tick[OF inv] Keys_sweep_sub[OF inv, of now] by (simp add: expiryTick_def)
qed


lemma promote_filter:
  assumes 1: "K1 = filter (\<lambda>y. y \<in> set K1) (promote t K)"
    and 2: "K = filter (\<lambda>y. y \<in> set K) ord"
  shows "K1 = filter (\<lambda>y. y \<in> set K1) (promote t ord)"
proof -
  have sub: "set K1 \<subseteq> set (promote t K)"
  proof
    fix y assume "y \<in> set K1"
    then have "y \<in> set (filter (\<lambda>y. y \<in> set K1) (promote t K))" using 1 by simp
    then show "y \<in> set (promote t K)" by simp
  qed
  show ?thesis
  proof (cases t)
    case None
    then have s: "set K1 \<subseteq> set K" using sub by simp
    have "K1 = filter (\<lambda>y. y \<in> set K1) (filter (\<lambda>y. y \<in> set K) ord)"
      using 1 2 None by simp
    also have "\<dots> = filter (\<lambda>y. y \<in> set K \<and> y \<in> set K1) ord" by simp
    also have "\<dots> = filter (\<lambda>y. y \<in> set K1) ord"
      using s by (intro filter_cong) auto
    finally show ?thesis using None by simp
  next
    case (Some k)
    then have s: "set K1 \<subseteq> insert k (set K)" using sub by auto
    have "filter (\<lambda>y. y \<in> set K1) (filter (\<lambda>x. x \<noteq> k) K) =
        filter (\<lambda>y. y \<in> set K1) (filter (\<lambda>x. x \<noteq> k) (filter (\<lambda>y. y \<in> set K) ord))"
      using 2 by simp
    also have "\<dots> = filter (\<lambda>y. y \<in> set K \<and> y \<noteq> k \<and> y \<in> set K1) ord" by simp
    also have "\<dots> = filter (\<lambda>y. y \<noteq> k \<and> y \<in> set K1) ord"
      using s by (intro filter_cong) auto
    also have "\<dots> = filter (\<lambda>y. y \<in> set K1) (filter (\<lambda>x. x \<noteq> k) ord)" by simp
    finally have "filter (\<lambda>y. y \<in> set K1) (k # filter (\<lambda>x. x \<noteq> k) K) =
        filter (\<lambda>y. y \<in> set K1) (k # filter (\<lambda>x. x \<noteq> k) ord)" by simp
    then show ?thesis using 1 Some by simp
  qed
qed

lemma run_order:
  assumes "cache_inv c" and "Keys c = filter (\<lambda>y. y \<in> set (Keys c)) ord"
  shows "\<exists>h' c'. run xs (h, c) = Some (h', c') \<and> cache_inv c' \<and>
     Keys c' = filter (\<lambda>y. y \<in> set (Keys c')) (recency xs (h, c) ord)"
  using assms
proof (induction xs arbitrary: h c ord)
  case Nil
  then show ?case by simp
next
  case (Cons x xs)
  from step_order[OF Cons.prems(1), of x h]
  obtain h1 c1 where s: "step x (h, c) = Some (h1, c1)" and inv1: "cache_inv c1"
    and K1: "Keys c1 = filter (\<lambda>y. y \<in> set (Keys c1)) (promote (touched x (h, c)) (Keys c))"
    by (elim exE conjE) (rule that)
  have K1': "Keys c1 = filter (\<lambda>y. y \<in> set (Keys c1)) (promote (touched x (h, c)) ord)"
    by (rule promote_filter[OF K1 Cons.prems(2)])
  from Cons.IH[OF inv1 K1', of h1]
  obtain h' c' where r: "run xs (h1, c1) = Some (h', c')" and inv': "cache_inv c'"
    and K: "Keys c' = filter (\<lambda>y. y \<in> set (Keys c'))
        (recency xs (h1, c1) (promote (touched x (h, c)) ord))"
    by (elim exE conjE) (rule that)
  have R: "run (x # xs) (h, c) = Some (h', c')" using s r by simp
  have Q: "recency (x # xs) (h, c) ord = recency xs (h1, c1) (promote (touched x (h, c)) ord)"
    using s by simp
  show ?case
    by (rule exI[of _ h'], rule exI[of _ c']) (intro conjI R inv' K[folded Q])
qed

lemma Keys_New: "Keys (New cfg) = []"
  by (simp add: Keys_def New_def)

text \<open>
  C6. A new cache satisfies the invariant (index and list hold the same handles, no key
  and no handle twice, every handle filed under the key of its entry), and so does the
  state after every sequence of operations from a new cache, each of which returns. In
  such a state the keys of the list are exactly the keys of the index, each once, and
  the list is in the order of last successful use: it is the order of all keys by their
  last successful \<^verbatim>\<open>Set\<close> or \<^verbatim>\<open>Get\<close>, restricted to the keys still stored. Every single
  operation preserves the invariant, moves the key it uses to the front and keeps the
  others in their order, and so do the internal steps (the write of \<^verbatim>\<open>Set\<close>,
  \<^verbatim>\<open>deleteLocked\<close>, the expiry sweep, \<^verbatim>\<open>evictIfNeededLocked\<close>).
\<close>

theorem C6_joint_invariant:
  "cache_inv (New cfg) \<and>
   (\<forall>xs h. \<exists>h' c'. run xs (h, New cfg) = Some (h', c') \<and> cache_inv c' \<and>
       set (Keys c') = fst ` set (items c') \<and> distinct (Keys c') \<and>
       distinct (map fst (items c')) \<and> length (Keys c') = length (items c') \<and>
       Keys c' = filter (\<lambda>y. y \<in> set (Keys c')) (recency xs (h, New cfg) [])) \<and>
   (\<forall>c x h. cache_inv c \<longrightarrow>
      (\<exists>h' c'. step x (h, c) = Some (h', c') \<and> cache_inv c' \<and>
         Keys c' = filter (\<lambda>y. y \<in> set (Keys c')) (promote (touched x (h, c)) (Keys c)) \<and>
         (\<forall>k. touched x (h, c) = Some k \<longrightarrow> hd (Keys c') = k \<and> k \<in> set (Keys c')))) \<and>
   (\<forall>c k v ttl now h. cache_inv c \<longrightarrow>
      cache_inv (snd (store k v ttl now (h, c))) \<and>
      cache_inv (deleteLocked k c) \<and>
      cache_inv (snd (deleteExpiredLocked now c)) \<and>
      (\<exists>c'. evictIfNeededLocked now c = Some c' \<and> cache_inv c'))"
proof -
  have A: "cache_inv (New cfg)" by (rule cache_inv_New)
  have B: "\<forall>xs h. \<exists>h' c'. run xs (h, New cfg) = Some (h', c') \<and> cache_inv c' \<and>
       set (Keys c') = fst ` set (items c') \<and> distinct (Keys c') \<and>
       distinct (map fst (items c')) \<and> length (Keys c') = length (items c') \<and>
       Keys c' = filter (\<lambda>y. y \<in> set (Keys c')) (recency xs (h, New cfg) [])"
  proof (intro allI)
    fix xs h
    have "Keys (New cfg) = filter (\<lambda>y. y \<in> set (Keys (New cfg))) []" by (simp add: Keys_New)
    from run_order[OF A this, of xs h]
    obtain h' c' where r: "run xs (h, New cfg) = Some (h', c')" and inv': "cache_inv c'"
      and K: "Keys c' = filter (\<lambda>y. y \<in> set (Keys c')) (recency xs (h, New cfg) [])"
      by (elim exE conjE) (rule that)
    have 1: "set (Keys c') = fst ` set (items c')" by (rule Keys_set[OF inv'])
    have 2: "distinct (Keys c')" by (rule Keys_distinct[OF inv'])
    have 3: "distinct (map fst (items c'))" using inv' unfolding cache_inv_def by blast
    have 4: "length (Keys c') = length (items c')" using inv_length[OF inv'] by (simp add: Keys_def)
    show "\<exists>h' c'. run xs (h, New cfg) = Some (h', c') \<and> cache_inv c' \<and>
       set (Keys c') = fst ` set (items c') \<and> distinct (Keys c') \<and>
       distinct (map fst (items c')) \<and> length (Keys c') = length (items c') \<and>
       Keys c' = filter (\<lambda>y. y \<in> set (Keys c')) (recency xs (h, New cfg) [])"
      by (rule exI[of _ h'], rule exI[of _ c']) (intro conjI r inv' 1 2 3 4 K)
  qed
  have C: "\<forall>c x h. cache_inv c \<longrightarrow>
      (\<exists>h' c'. step x (h, c) = Some (h', c') \<and> cache_inv c' \<and>
         Keys c' = filter (\<lambda>y. y \<in> set (Keys c')) (promote (touched x (h, c)) (Keys c)) \<and>
         (\<forall>k. touched x (h, c) = Some k \<longrightarrow> hd (Keys c') = k \<and> k \<in> set (Keys c')))"
    using step_order by blast
  have D: "\<forall>c k v ttl now h. cache_inv c \<longrightarrow>
      cache_inv (snd (store k v ttl now (h, c))) \<and>
      cache_inv (deleteLocked k c) \<and>
      cache_inv (snd (deleteExpiredLocked now c)) \<and>
      (\<exists>c'. evictIfNeededLocked now c = Some c' \<and> cache_inv c')"
  proof (intro allI impI)
    fix c k v ttl now h assume inv: "cache_inv c"
    have 1: "cache_inv (snd (store k v ttl now (h, c)))" by (rule cache_inv_store[OF inv])
    have 2: "cache_inv (deleteLocked k c)" by (rule cache_inv_deleteLocked[OF inv])
    have 3: "cache_inv (snd (deleteExpiredLocked now c))"
      using cache_inv_tick[OF inv] by (simp add: expiryTick_def)
    have 4: "\<exists>c'. evictIfNeededLocked now c = Some c' \<and> cache_inv c'"
      using evictIfNeededLocked_enforce[OF inv] cache_inv_enforce[OF inv] by blast
    show "cache_inv (snd (store k v ttl now (h, c))) \<and>
      cache_inv (deleteLocked k c) \<and>
      cache_inv (snd (deleteExpiredLocked now c)) \<and>
      (\<exists>c'. evictIfNeededLocked now c = Some c' \<and> cache_inv c')"
      by (intro conjI 1 2 3 4)
  qed
  show ?thesis by (intro conjI A B C D)
qed

theorem C6_joint_invariant_witness:
  "cache_inv ab_cache \<and>
   (\<exists>h' c'. run [OpSet ''a'' (Some 0) 0 1, OpSet ''b'' (Some 1) 0 2, OpGet ''a'' 3,
                 OpSet ''c'' (Some 2) 0 4, OpDelete ''z'', OpTick 5]
          (abc_heap, New cap2) = Some (h', c') \<and>
      cache_inv c' \<and> set (Keys c') = fst ` set (items c') \<and> distinct (Keys c') \<and>
      Keys c' = filter (\<lambda>y. y \<in> set (Keys c')) [''c'', ''a'', ''b'']) \<and>
   (\<exists>h' c'. step (OpGet ''b'' 5) (abc_heap, ab_cache) = Some (h', c') \<and> cache_inv c' \<and>
      Keys c' = filter (\<lambda>y. y \<in> set (Keys c')) [''b'', ''a''] \<and> hd (Keys c') = ''b'') \<and>
   cache_inv (deleteLocked ''a'' ab_cache) \<and>
   (\<exists>c'. evictIfNeededLocked 5 ab_cache = Some c' \<and> cache_inv c')"
proof -
  let ?xs = "[OpSet ''a'' (Some 0) 0 1, OpSet ''b'' (Some 1) 0 2, OpGet ''a'' 3,
                 OpSet ''c'' (Some 2) 0 4, OpDelete ''z'', OpTick 5]"
  note T = C6_joint_invariant[of cap2]
  have i: "cache_inv ab_cache" by (auto simp add: cache_inv_def ab_cache_def)
  have q: "recency ?xs (abc_heap, New cap2) [] = [''c'', ''a'', ''b'']"
    by (simp add: eval_defs abc_heap_def cap2_def evictLoop.simps)
  have K: "Keys ab_cache = [''a'', ''b'']" by (simp add: Keys_def ab_cache_def)
  have t: "touched (OpGet ''b'' 5) (abc_heap, ab_cache) = Some ''b''"
    by (simp add: eval_defs ab_cache_def)
  from T obtain h' c' where "run ?xs (abc_heap, New cap2) = Some (h', c')"
      "cache_inv c'" "set (Keys c') = fst ` set (items c')" "distinct (Keys c')"
      "Keys c' = filter (\<lambda>y. y \<in> set (Keys c')) (recency ?xs (abc_heap, New cap2) [])"
    by blast
  then have 1: "\<exists>h' c'. run ?xs (abc_heap, New cap2) = Some (h', c') \<and>
      cache_inv c' \<and> set (Keys c') = fst ` set (items c') \<and> distinct (Keys c') \<and>
      Keys c' = filter (\<lambda>y. y \<in> set (Keys c')) [''c'', ''a'', ''b'']"
    unfolding q by blast
  from T i obtain h2 c2 where "step (OpGet ''b'' 5) (abc_heap, ab_cache) = Some (h2, c2)"
      "cache_inv c2"
      "Keys c2 = filter (\<lambda>y. y \<in> set (Keys c2))
         (promote (touched (OpGet ''b'' 5) (abc_heap, ab_cache)) (Keys ab_cache))"
      "\<forall>k. touched (OpGet ''b'' 5) (abc_heap, ab_cache) = Some k \<longrightarrow>
         hd (Keys c2) = k \<and> k \<in> set (Keys c2)"
    by blast
  then have 2: "\<exists>h' c'. step (OpGet ''b'' 5) (abc_heap, ab_cache) = Some (h', c') \<and>
      cache_inv c' \<and>
      Keys c' = filter (\<lambda>y. y \<in> set (Keys c')) [''b'', ''a''] \<and> hd (Keys c') = ''b''"
    unfolding t K by auto
  have 3: "cache_inv (deleteLocked ''a'' ab_cache)" using T i by blast
  have 4: "\<exists>c'. evictIfNeededLocked 5 ab_cache = Some c' \<and> cache_inv c'" using T i by blast
  show ?thesis by (intro conjI i 1 2 3 4)
qed

section \<open>Len\<close>

lemma Get_found_iff:
  "snd (fst (Get k now (h, c))) \<longleftrightarrow>
     (\<exists>el. lookup (items c) k = Some el \<and> \<not> expired (elems c ! el) now)"
proof (cases "lookup (items c) k")
  case None
  then show ?thesis by (simp add: Get_absent)
next
  case (Some el)
  show ?thesis
  proof (cases "expired (elems c ! el) now")
    case True
    then show ?thesis using Some by (simp add: Get_expired)
  next
    case False
    then show ?thesis using Some by (simp add: Get_live)
  qed
qed

lemma found_count:
  assumes inv: "cache_inv c"
  shows "length (filter (\<lambda>k. snd (fst (Get k now (h, c)))) (Keys c)) =
     length (filter (\<lambda>el. \<not> expired (elems c ! el) now) (lru c))"
proof -
  have "filter (\<lambda>k. snd (fst (Get k now (h, c)))) (Keys c) =
      map (\<lambda>el. key (elems c ! el))
        (filter (\<lambda>el. snd (fst (Get (key (elems c ! el)) now (h, c)))) (lru c))"
    by (simp add: Keys_def filter_map comp_def)
  also have "filter (\<lambda>el. snd (fst (Get (key (elems c ! el)) now (h, c)))) (lru c) =
      filter (\<lambda>el. \<not> expired (elems c ! el) now) (lru c)"
  proof (rule filter_cong[OF refl])
    fix el assume "el \<in> set (lru c)"
    then have "lookup (items c) (key (elems c ! el)) = Some el" by (rule inv_lru_key[OF inv])
    then show "snd (fst (Get (key (elems c ! el)) now (h, c))) = (\<not> expired (elems c ! el) now)"
      by (simp add: Get_found_iff)
  qed
  finally show ?thesis by simp
qed

text \<open>
  C7. \<^verbatim>\<open>Len\<close> is the number of entries of the index, whatever the time. On a state that
  satisfies the invariant it is the number of stored keys, and it is the number of stored
  keys that \<^verbatim>\<open>Get\<close> would find at \<open>now\<close> plus the number of stored entries that are
  expired at \<open>now\<close>; \<^verbatim>\<open>Get\<close> finds no other key. So as soon as one stored entry is
  expired, \<^verbatim>\<open>Len\<close> exceeds the number of keys that \<^verbatim>\<open>Get\<close> would find, as after
  \<^verbatim>\<open>Set(k, ttl = 30)\<close> at time 0 on a new cache without worker, at time 80:
  \<^verbatim>\<open>Len\<close> is 1 and \<^verbatim>\<open>Get(k)\<close> is not-found.
\<close>

theorem C7_Len_counts_unreclaimed:
  "Len c = int (length (items c)) \<and>
   (cache_inv c \<longrightarrow>
      Len c = int (length (Keys c)) \<and>
      Len c = int (length (filter (\<lambda>k. snd (fst (Get k now (h, c)))) (Keys c))) +
              int (length (filter (\<lambda>el. expired (elems c ! el) now) (lru c))) \<and>
      (\<forall>k. snd (fst (Get k now (h, c))) \<longrightarrow> k \<in> set (Keys c)) \<and>
      ((\<exists>el. el \<in> set (lru c) \<and> expired (elems c ! el) now) \<longrightarrow>
         int (length (filter (\<lambda>k. snd (fst (Get k now (h, c)))) (Keys c))) < Len c)) \<and>
   (\<exists>h' c'. run [OpSet ''k'' None 30 0] ([], New cap10) = Some (h', c') \<and>
      Len c' = 1 \<and> filter (\<lambda>k. snd (fst (Get k 80 (h', c')))) (Keys c') = [] \<and>
      \<not> snd (fst (Get ''k'' 80 (h', c'))))"
proof -
  have A: "Len c = int (length (items c))" by (simp add: Len_def)
  have B: "cache_inv c \<longrightarrow>
      Len c = int (length (Keys c)) \<and>
      Len c = int (length (filter (\<lambda>k. snd (fst (Get k now (h, c)))) (Keys c))) +
              int (length (filter (\<lambda>el. expired (elems c ! el) now) (lru c))) \<and>
      (\<forall>k. snd (fst (Get k now (h, c))) \<longrightarrow> k \<in> set (Keys c)) \<and>
      ((\<exists>el. el \<in> set (lru c) \<and> expired (elems c ! el) now) \<longrightarrow>
         int (length (filter (\<lambda>k. snd (fst (Get k now (h, c)))) (Keys c))) < Len c)"
  proof
    assume inv: "cache_inv c"
    have 1: "Len c = int (length (Keys c))" by (rule Len_Keys[OF inv])
    have s: "length (lru c) = length (filter (\<lambda>el. \<not> expired (elems c ! el) now) (lru c)) +
        length (filter (\<lambda>el. expired (elems c ! el) now) (lru c))"
      using sum_length_filter_compl[of "\<lambda>el. \<not> expired (elems c ! el) now" "lru c"] by simp
    have 2: "Len c = int (length (filter (\<lambda>k. snd (fst (Get k now (h, c)))) (Keys c))) +
              int (length (filter (\<lambda>el. expired (elems c ! el) now) (lru c)))"
      unfolding 1 found_count[OF inv] using s by (simp add: Keys_def)
    have 3: "\<forall>k. snd (fst (Get k now (h, c))) \<longrightarrow> k \<in> set (Keys c)"
      using Get_found_iff[of _ now h c] Keys_lookup[OF inv] by auto
    have 4: "(\<exists>el. el \<in> set (lru c) \<and> expired (elems c ! el) now) \<longrightarrow>
         int (length (filter (\<lambda>k. snd (fst (Get k now (h, c)))) (Keys c))) < Len c"
    proof
      assume "\<exists>el. el \<in> set (lru c) \<and> expired (elems c ! el) now"
      then have "filter (\<lambda>el. expired (elems c ! el) now) (lru c) \<noteq> []"
        by (simp add: filter_empty_conv) blast
      then have "0 < length (filter (\<lambda>el. expired (elems c ! el) now) (lru c))" by simp
      then show "int (length (filter (\<lambda>k. snd (fst (Get k now (h, c)))) (Keys c))) < Len c"
        unfolding 2 by simp
    qed
    show "Len c = int (length (Keys c)) \<and>
      Len c = int (length (filter (\<lambda>k. snd (fst (Get k now (h, c)))) (Keys c))) +
              int (length (filter (\<lambda>el. expired (elems c ! el) now) (lru c))) \<and>
      (\<forall>k. snd (fst (Get k now (h, c))) \<longrightarrow> k \<in> set (Keys c)) \<and>
      ((\<exists>el. el \<in> set (lru c) \<and> expired (elems c ! el) now) \<longrightarrow>
         int (length (filter (\<lambda>k. snd (fst (Get k now (h, c)))) (Keys c))) < Len c)"
      by (intro conjI 1 2 3 4)
  qed
  have C: "\<exists>h' c'. run [OpSet ''k'' None 30 0] ([], New cap10) = Some (h', c') \<and>
      Len c' = 1 \<and> filter (\<lambda>k. snd (fst (Get k 80 (h', c')))) (Keys c') = [] \<and>
      \<not> snd (fst (Get ''k'' 80 (h', c')))"
    by (simp add: eval_defs cap10_def evictLoop.simps)
  show ?thesis by (intro conjI A B C)
qed

theorem C7_Len_counts_unreclaimed_witness:
  "cache_inv ex_full \<and> Len ex_full = 2 \<and>
   length (filter (\<lambda>k. snd (fst (Get k 10 (ex_heap, ex_full)))) (Keys ex_full)) = 1 \<and>
   expired (elems ex_full ! 0) 10 \<and>
   int (length (filter (\<lambda>k. snd (fst (Get k 10 (ex_heap, ex_full)))) (Keys ex_full))) <
     Len ex_full"
proof -
  have i: "cache_inv ex_full" by (simp add: cache_inv_def ex_full_def)
  have x: "expired (elems ex_full ! 0) 10" by (simp add: expired_def ex_full_def)
  have e: "length (filter (\<lambda>el. expired (elems ex_full ! el) 10) (lru ex_full)) = 1"
    by (simp add: expired_def ex_full_def)
  have m: "\<exists>el. el \<in> set (lru ex_full) \<and> expired (elems ex_full ! el) 10"
    by (rule exI[of _ 0]) (simp add: expired_def ex_full_def)
  note T = C7_Len_counts_unreclaimed[of ex_full 10 ex_heap]
  have l: "Len ex_full = 2" using T by (simp add: ex_full_def)
  have s: "Len ex_full =
      int (length (filter (\<lambda>k. snd (fst (Get k 10 (ex_heap, ex_full)))) (Keys ex_full))) +
      int (length (filter (\<lambda>el. expired (elems ex_full ! el) 10) (lru ex_full)))"
    using T i by blast
  have f: "length (filter (\<lambda>k. snd (fst (Get k 10 (ex_heap, ex_full)))) (Keys ex_full)) = 1"
    using s unfolding l e by simp
  have lt: "int (length (filter (\<lambda>k. snd (fst (Get k 10 (ex_heap, ex_full)))) (Keys ex_full))) <
     Len ex_full"
    using T i m by blast
  show ?thesis by (intro conjI i l f x lt)
qed

section \<open>Value isolation\<close>

lemma cloneBytes_length: "length h \<le> length (snd (cloneBytes v h))"
  by (cases v) (simp_all add: cloneBytes_def)

lemma vals_ok_mono:
  assumes "vals_ok h c" "length h \<le> length h'" "set (lru c') \<subseteq> set (lru c)"
    "elems c' = elems c"
  shows "vals_ok h' c'"
  unfolding vals_ok_def
proof
  fix el assume "el \<in> set (lru c')"
  then have "el \<in> set (lru c)" using assms(3) by blast
  then have "case val (elems c ! el) of None \<Rightarrow> True | Some a \<Rightarrow> a < length h"
    using assms(1) unfolding vals_ok_def by blast
  then show "case val (elems c' ! el) of None \<Rightarrow> True | Some a \<Rightarrow> a < length h'"
    using assms(2,4) by (simp split: option.splits)
qed

lemma Get_frame:
  assumes "\<And>el a. lookup (items c) k = Some el \<Longrightarrow> val (elems c ! el) = Some a \<Longrightarrow>
      load h2 a = load h a"
  shows "got (Get k now (h2, c)) = got (Get k now (h, c))"
proof (cases "lookup (items c) k")
  case None
  then show ?thesis by (simp add: Get_absent got_def bytes_of_def)
next
  case (Some el)
  show ?thesis
  proof (cases "expired (elems c ! el) now")
    case True
    then show ?thesis using Some by (simp add: Get_expired got_def bytes_of_def)
  next
    case False
    have "bytes_of h2 (val (elems c ! el)) = bytes_of h (val (elems c ! el))"
      using assms[OF Some] by (cases "val (elems c ! el)") (simp_all add: bytes_of_def)
    then show ?thesis using Some False
      by (simp add: Get_live got_def cloneBytes_bytes)
  qed
qed

lemma Get_got_live:
  assumes "lookup (items c) k = Some el" "\<not> expired (elems c ! el) now"
  shows "got (Get k now (h, c)) = (bytes_of h (val (elems c ! el)), True)"
  using assms by (simp add: Get_live got_def cloneBytes_bytes)

lemma Get_found_entry:
  assumes "snd (fst (Get k now (h, c)))"
  obtains el where "lookup (items c) k = Some el" "\<not> expired (elems c ! el) now"
  using assms Get_found_iff by blast

lemma vals_ok_Set:
  assumes inv: "cache_inv c" and o: "\<not> closed c" and ok: "vals_ok h c"
    and S: "Set k v ttl now (h, c) = Some (None, h1, c1)"
  shows "vals_ok h1 c1"
proof -
  let ?s = "snd (store k v ttl now (h, c))"
  let ?el = "handle_of k c"
  have e: "h1 = snd (cloneBytes v h)" "c1 = enforce now ?s"
    using S Set_open[OF inv o, of k v ttl now h] by simp_all
  have invs: "cache_inv ?s" by (rule cache_inv_store[OF inv])
  have ls: "lru ?s = ?el # remove1 ?el (lru c)" by (rule store_lru[OF inv])
  have oks: "vals_ok h1 ?s"
    unfolding vals_ok_def
  proof
    fix el assume m: "el \<in> set (lru ?s)"
    show "case val (elems ?s ! el) of None \<Rightarrow> True | Some a \<Rightarrow> a < length h1"
    proof (cases "el = ?el")
      case True
      have "val (elems ?s ! ?el) = fst (cloneBytes v h)"
        using store_entry[OF inv, of k v ttl now h] by blast
      then show ?thesis unfolding True e by (cases v) (simp_all add: cloneBytes_def)
    next
      case False
      then have inl: "el \<in> set (lru c)" using m ls set_remove1_subset by fastforce
      then have "el < length (elems c)" by (rule inv_lru_bound[OF inv])
      then have same: "elems ?s ! el = elems c ! el" using False by (rule store_other)
      have "case val (elems c ! el) of None \<Rightarrow> True | Some a \<Rightarrow> a < length h"
        using ok inl unfolding vals_ok_def by blast
      then show ?thesis unfolding same e using cloneBytes_length[of h v]
        by (simp split: option.splits)
    qed
  qed
  have sub: "set (lru c1) \<subseteq> set (lru ?s)"
  proof (cases "maxEntries ?s \<le> 0")
    case True
    then show ?thesis unfolding e by (simp add: enforce_def)
  next
    case False
    then show ?thesis unfolding e by (auto simp add: enforce_def)
  qed
  have el: "elems c1 = elems ?s" unfolding e by (simp add: enforce_fields)
  show ?thesis by (rule vals_ok_mono[OF oks le_refl sub el])
qed

lemma vals_ok_Get:
  assumes inv: "cache_inv c" and ok: "vals_ok h c"
  shows "vals_ok (fst (snd (Get k now (h, c)))) (snd (snd (Get k now (h, c))))"
proof (cases "lookup (items c) k")
  case None
  then show ?thesis using ok by (simp add: Get_absent)
next
  case (Some el)
  show ?thesis
  proof (cases "expired (elems c ! el) now")
    case True
    from Get_expired_effect[OF inv Some True, of h]
    obtain c' where g: "Get k now (h, c) = ((None, False), h, c')"
      and l: "lru c' = remove1 el (lru c)" and e: "elems c' = elems c"
      by (elim exE conjE) (rule that)
    have "set (lru c') \<subseteq> set (lru c)" unfolding l by (rule set_remove1_subset)
    then show ?thesis unfolding g using vals_ok_mono[OF ok le_refl _ e] by simp
  next
    case False
    from Get_live_effect[OF inv Some False, of h]
    obtain v' h' c' where g: "Get k now (h, c) = ((v', True), h', c')"
      and l: "lru c' = el # remove1 el (lru c)" and e: "elems c' = elems c"
      by (elim exE conjE) (rule that)
    have h': "h' = snd (cloneBytes (val (elems c ! el)) h)"
      using g Get_live[OF Some False, of h] by simp
    have "el \<in> set (lru c)" by (rule inv_lookup(2)[OF inv Some])
    then have sub: "set (lru c') \<subseteq> set (lru c)"
      unfolding l using set_remove1_subset[of el "lru c"] by auto
    have len: "length h \<le> length h'" unfolding h' by (rule cloneBytes_length)
    show ?thesis unfolding g using vals_ok_mono[OF ok len sub e] by simp
  qed
qed

lemma load_update_other: "a \<noteq> b \<Longrightarrow> load (h[a := bs]) b = load h b"
  by (simp add: load_def)

lemma Set_then_Get_isolated:
  assumes inv: "cache_inv c" and o: "\<not> closed c"
    and valid: "\<forall>a. v = Some a \<longrightarrow> a < length h"
  shows "\<exists>h1 c1. Set k v ttl now (h, c) = Some (None, h1, c1) \<and>
     (\<forall>bs now2. got (Get k now2 (mutate v bs h1, c1)) = got (Get k now2 (h1, c1)) \<and>
        (snd (fst (Get k now2 (mutate v bs h1, c1))) \<longrightarrow>
           fst (got (Get k now2 (mutate v bs h1, c1))) = bytes_of h v))"
proof -
  let ?s = "snd (store k v ttl now (h, c))"
  let ?el = "handle_of k c"
  let ?h1 = "snd (cloneBytes v h)"
  from Set_effect[OF inv o, of k v ttl now h]
  obtain c1 where S: "Set k v ttl now (h, c) = Some (None, ?h1, c1)"
    and inv1: "cache_inv c1" and l: "lookup (items c1) k = Some ?el"
    and e: "elems c1 = elems ?s"
    by (elim exE conjE) (rule that)
  have sv: "val (elems c1 ! ?el) = fst (cloneBytes v h)"
    unfolding e using store_entry[OF inv, of k v ttl now h] by blast
  have fr: "\<And>bs a. val (elems c1 ! ?el) = Some a \<Longrightarrow> load (mutate v bs ?h1) a = load ?h1 a"
  proof -
    fix bs a assume a: "val (elems c1 ! ?el) = Some a"
    show "load (mutate v bs ?h1) a = load ?h1 a"
    proof (cases v)
      case None
      then show ?thesis by (simp add: mutate_def)
    next
      case (Some b)
      have "a = length h" using a sv cloneBytes_fresh by metis
      moreover have "b < length h" using valid Some by blast
      ultimately have "b \<noteq> a" by simp
      then show ?thesis using Some by (simp add: mutate_def load_update_other)
    qed
  qed
  have st: "bytes_of ?h1 (val (elems c1 ! ?el)) = bytes_of h v"
    unfolding sv by (rule cloneBytes_bytes)
  have "\<forall>bs now2. got (Get k now2 (mutate v bs ?h1, c1)) = got (Get k now2 (?h1, c1)) \<and>
        (snd (fst (Get k now2 (mutate v bs ?h1, c1))) \<longrightarrow>
           fst (got (Get k now2 (mutate v bs ?h1, c1))) = bytes_of h v)"
  proof (intro allI conjI impI)
    fix bs now2
    show g: "got (Get k now2 (mutate v bs ?h1, c1)) = got (Get k now2 (?h1, c1))"
    proof (rule Get_frame)
      fix el a assume "lookup (items c1) k = Some el" "val (elems c1 ! el) = Some a"
      then have "val (elems c1 ! ?el) = Some a" using l by simp
      then show "load (mutate v bs ?h1) a = load ?h1 a" by (rule fr)
    qed
    assume "snd (fst (Get k now2 (mutate v bs ?h1, c1)))"
    then have "\<not> expired (elems c1 ! ?el) now2" using l by (simp add: Get_found_iff)
    then have "got (Get k now2 (?h1, c1)) = (bytes_of ?h1 (val (elems c1 ! ?el)), True)"
      by (rule Get_got_live[OF l])
    then show "fst (got (Get k now2 (mutate v bs ?h1, c1))) = bytes_of h v"
      unfolding g st by simp
  qed
  then show ?thesis using S by blast
qed

lemma Get_then_Get_isolated:
  assumes inv: "cache_inv c" and ok: "vals_ok h c"
    and g: "Get k now (h, c) = ((r, True), h1, c1)"
  shows "got (Get k now2 (mutate r bs h1, c1)) = got (Get k now2 (h1, c1)) \<and>
     (snd (fst (Get k now2 (mutate r bs h1, c1))) \<longrightarrow>
        fst (got (Get k now2 (mutate r bs h1, c1))) = bytes_of h1 r)"
proof -
  have "snd (fst (Get k now (h, c)))" unfolding g by simp
  then obtain el where l: "lookup (items c) k = Some el" and x: "\<not> expired (elems c ! el) now"
    by (rule Get_found_entry)
  have elin: "el \<in> set (lru c)" by (rule inv_lookup(2)[OF inv l])
  have e: "r = fst (cloneBytes (val (elems c ! el)) h)"
    "h1 = snd (cloneBytes (val (elems c ! el)) h)"
    "c1 = c\<lparr>lru := MoveToFront el (lru c)\<rparr>"
    using g Get_live[OF l x, of h] by simp_all
  have l1: "lookup (items c1) k = Some el" and e1: "elems c1 = elems c"
    unfolding e using l by simp_all
  have okv: "\<And>a. val (elems c ! el) = Some a \<Longrightarrow> a < length h"
    using ok elin unfolding vals_ok_def by (auto split: option.splits)
  have fr: "\<And>a. val (elems c ! el) = Some a \<Longrightarrow> load (mutate r bs h1) a = load h1 a"
  proof -
    fix a assume a: "val (elems c ! el) = Some a"
    have "a < length h" by (rule okv[OF a])
    moreover have "r = Some (length h)" unfolding e a by (simp add: cloneBytes_def)
    ultimately show "load (mutate r bs h1) a = load h1 a"
      by (simp add: mutate_def load_update_other)
  qed
  have G: "got (Get k now2 (mutate r bs h1, c1)) = got (Get k now2 (h1, c1))"
  proof (rule Get_frame)
    fix el' a assume "lookup (items c1) k = Some el'" "val (elems c1 ! el') = Some a"
    then have "val (elems c ! el) = Some a" using l1 e1 by simp
    then show "load (mutate r bs h1) a = load h1 a" by (rule fr)
  qed
  have st: "bytes_of h1 (val (elems c ! el)) = bytes_of h1 r"
  proof (cases "val (elems c ! el)")
    case None
    then show ?thesis unfolding e by (simp add: cloneBytes_def)
  next
    case (Some a)
    have "a < length h" by (rule okv[OF Some])
    then show ?thesis unfolding e Some
      by (simp add: cloneBytes_def bytes_of_def load_def nth_append)
  qed
  have F: "snd (fst (Get k now2 (mutate r bs h1, c1))) \<longrightarrow>
        fst (got (Get k now2 (mutate r bs h1, c1))) = bytes_of h1 r"
  proof
    assume "snd (fst (Get k now2 (mutate r bs h1, c1)))"
    then have "\<not> expired (elems c1 ! el) now2" using l1 by (simp add: Get_found_iff)
    then have "got (Get k now2 (h1, c1)) = (bytes_of h1 (val (elems c1 ! el)), True)"
      by (rule Get_got_live[OF l1])
    then show "fst (got (Get k now2 (mutate r bs h1, c1))) = bytes_of h1 r"
      unfolding G e1 st by simp
  qed
  show ?thesis using G F by (rule conjI)
qed


lemma vals_ok_New: "vals_ok h (New cfg)"
  by (simp add: vals_ok_def New_def)

text \<open>
  C9. \<^verbatim>\<open>Set\<close> stores a copy: after \<^verbatim>\<open>Set(k, v)\<close> on an open cache, with \<open>v\<close> nil or
  referring to an allocated array, whatever the caller then writes through \<open>v\<close>, a
  \<^verbatim>\<open>Get(k)\<close> at any time returns the same flag and bytes as without the write, and when
  it finds the key the bytes are those \<open>v\<close> showed when \<^verbatim>\<open>Set\<close> was called. \<^verbatim>\<open>Get\<close>
  returns a copy: whatever the caller writes through the slice a successful \<^verbatim>\<open>Get(k)\<close>
  returned, a later \<^verbatim>\<open>Get(k)\<close> returns the same flag and bytes as without the write,
  namely, when it finds the key, the bytes the first \<^verbatim>\<open>Get\<close> returned. Both rest on the
  stored values referring to allocated arrays, which holds for a new cache and is kept by
  \<^verbatim>\<open>Set\<close> and \<^verbatim>\<open>Get\<close>. In general the result of \<^verbatim>\<open>Get(k)\<close> depends on the heap only
  through the array the entry of \<open>k\<close> refers to.
\<close>

theorem C9_value_isolation:
  "(cache_inv c \<and> \<not> closed c \<and> (\<forall>a. v = Some a \<longrightarrow> a < length h) \<longrightarrow>
      (\<exists>h1 c1. Set k v ttl now (h, c) = Some (None, h1, c1) \<and>
         (vals_ok h c \<longrightarrow> vals_ok h1 c1) \<and>
         (\<forall>bs now2. got (Get k now2 (mutate v bs h1, c1)) = got (Get k now2 (h1, c1)) \<and>
            (snd (fst (Get k now2 (mutate v bs h1, c1))) \<longrightarrow>
               fst (got (Get k now2 (mutate v bs h1, c1))) = bytes_of h v)))) \<and>
   (cache_inv c \<and> vals_ok h c \<longrightarrow>
      vals_ok (fst (snd (Get k now (h, c)))) (snd (snd (Get k now (h, c)))) \<and>
      (\<forall>r h1 c1 bs now2. Get k now (h, c) = ((r, True), h1, c1) \<longrightarrow>
         got (Get k now2 (mutate r bs h1, c1)) = got (Get k now2 (h1, c1)) \<and>
         (snd (fst (Get k now2 (mutate r bs h1, c1))) \<longrightarrow>
            fst (got (Get k now2 (mutate r bs h1, c1))) = bytes_of h1 r))) \<and>
   vals_ok h (New cfg) \<and>
   (\<forall>h2. (\<forall>el a. lookup (items c) k = Some el \<and> val (elems c ! el) = Some a \<longrightarrow>
            load h2 a = load h a) \<longrightarrow>
         got (Get k now (h2, c)) = got (Get k now (h, c)))"
proof -
  have A: "cache_inv c \<and> \<not> closed c \<and> (\<forall>a. v = Some a \<longrightarrow> a < length h) \<longrightarrow>
      (\<exists>h1 c1. Set k v ttl now (h, c) = Some (None, h1, c1) \<and>
         (vals_ok h c \<longrightarrow> vals_ok h1 c1) \<and>
         (\<forall>bs now2. got (Get k now2 (mutate v bs h1, c1)) = got (Get k now2 (h1, c1)) \<and>
            (snd (fst (Get k now2 (mutate v bs h1, c1))) \<longrightarrow>
               fst (got (Get k now2 (mutate v bs h1, c1))) = bytes_of h v)))"
  proof
    assume a: "cache_inv c \<and> \<not> closed c \<and> (\<forall>a. v = Some a \<longrightarrow> a < length h)"
    then have inv: "cache_inv c" and o: "\<not> closed c"
      and valid: "\<forall>a. v = Some a \<longrightarrow> a < length h" by blast+
    from Set_then_Get_isolated[OF inv o valid, where k = k and ttl = ttl and now = now]
    obtain h1 c1 where S: "Set k v ttl now (h, c) = Some (None, h1, c1)"
      and I: "\<forall>bs now2. got (Get k now2 (mutate v bs h1, c1)) = got (Get k now2 (h1, c1)) \<and>
            (snd (fst (Get k now2 (mutate v bs h1, c1))) \<longrightarrow>
               fst (got (Get k now2 (mutate v bs h1, c1))) = bytes_of h v)"
      by (elim exE conjE) (rule that)
    have V: "vals_ok h c \<longrightarrow> vals_ok h1 c1" using vals_ok_Set[OF inv o _ S] by blast
    show "\<exists>h1 c1. Set k v ttl now (h, c) = Some (None, h1, c1) \<and>
         (vals_ok h c \<longrightarrow> vals_ok h1 c1) \<and>
         (\<forall>bs now2. got (Get k now2 (mutate v bs h1, c1)) = got (Get k now2 (h1, c1)) \<and>
            (snd (fst (Get k now2 (mutate v bs h1, c1))) \<longrightarrow>
               fst (got (Get k now2 (mutate v bs h1, c1))) = bytes_of h v))"
      by (rule exI[of _ h1], rule exI[of _ c1]) (intro conjI S V I)
  qed
  have B: "cache_inv c \<and> vals_ok h c \<longrightarrow>
      vals_ok (fst (snd (Get k now (h, c)))) (snd (snd (Get k now (h, c)))) \<and>
      (\<forall>r h1 c1 bs now2. Get k now (h, c) = ((r, True), h1, c1) \<longrightarrow>
         got (Get k now2 (mutate r bs h1, c1)) = got (Get k now2 (h1, c1)) \<and>
         (snd (fst (Get k now2 (mutate r bs h1, c1))) \<longrightarrow>
            fst (got (Get k now2 (mutate r bs h1, c1))) = bytes_of h1 r))"
  proof
    assume a: "cache_inv c \<and> vals_ok h c"
    then have inv: "cache_inv c" and ok: "vals_ok h c" by blast+
    have 1: "vals_ok (fst (snd (Get k now (h, c)))) (snd (snd (Get k now (h, c))))"
      by (rule vals_ok_Get[OF inv ok])
    have 2: "\<forall>r h1 c1 bs now2. Get k now (h, c) = ((r, True), h1, c1) \<longrightarrow>
         got (Get k now2 (mutate r bs h1, c1)) = got (Get k now2 (h1, c1)) \<and>
         (snd (fst (Get k now2 (mutate r bs h1, c1))) \<longrightarrow>
            fst (got (Get k now2 (mutate r bs h1, c1))) = bytes_of h1 r)"
      using Get_then_Get_isolated[OF inv ok] by blast
    show "vals_ok (fst (snd (Get k now (h, c)))) (snd (snd (Get k now (h, c)))) \<and>
      (\<forall>r h1 c1 bs now2. Get k now (h, c) = ((r, True), h1, c1) \<longrightarrow>
         got (Get k now2 (mutate r bs h1, c1)) = got (Get k now2 (h1, c1)) \<and>
         (snd (fst (Get k now2 (mutate r bs h1, c1))) \<longrightarrow>
            fst (got (Get k now2 (mutate r bs h1, c1))) = bytes_of h1 r))"
      using 1 2 by (rule conjI)
  qed
  have C: "vals_ok h (New cfg)" by (rule vals_ok_New)
  have D: "\<forall>h2. (\<forall>el a. lookup (items c) k = Some el \<and> val (elems c ! el) = Some a \<longrightarrow>
            load h2 a = load h a) \<longrightarrow>
         got (Get k now (h2, c)) = got (Get k now (h, c))"
    using Get_frame[of c k _ h now] by blast
  show ?thesis by (intro conjI A B C D)
qed

theorem C9_value_isolation_witness:
  "cache_inv (New cap2) \<and> \<not> closed (New cap2) \<and> 0 < length abc_heap \<and>
   (\<exists>h1 c1. Set ''a'' (Some 0) 0 1 (abc_heap, New cap2) = Some (None, h1, c1) \<and>
      bytes_of (mutate (Some 0) [88] h1) (Some 0) = [88] \<and>
      got (Get ''a'' 2 (mutate (Some 0) [88] h1, c1)) = ([65], True)) \<and>
   cache_inv ex_full \<and> vals_ok ex_heap ex_full \<and>
   (\<exists>r h1 c1. Get ''b'' 10 (ex_heap, ex_full) = ((r, True), h1, c1) \<and>
      bytes_of (mutate r [88] h1) r = [88] \<and>
      got (Get ''b'' 11 (mutate r [88] h1, c1)) = ([66], True)) \<and>
   got (Get ''b'' 10 (ex_heap[0 := [88]], ex_full)) = got (Get ''b'' 10 (ex_heap, ex_full))"
proof -
  let ?H = "[[65], [66], [67], [65]] :: heap"
  let ?C = "\<lparr> maxEntries = 2, items = [(''a'', 0)], lru = [0],
           elems = [\<lparr>key = ''a'', val = Some 3, expiresAt = 0, hasExpiry = False\<rparr>],
           cancelled = False, cleanupEvery = 0, closed = False \<rparr>"
  let ?H2 = "[[65], [66], [66]] :: heap"
  let ?C2 = "ex_full\<lparr>lru := [1, 0]\<rparr>"
  have i0: "cache_inv (New cap2)" by (rule cache_inv_New)
  have o0: "\<not> closed (New cap2)" by (simp add: New_def)
  have v0: "0 < length abc_heap" by (simp add: abc_heap_def)
  have hyp0: "cache_inv (New cap2) \<and> \<not> closed (New cap2) \<and>
      (\<forall>a. Some 0 = Some a \<longrightarrow> a < length abc_heap)"
    using i0 o0 v0 by simp
  have S0: "Set ''a'' (Some 0) 0 1 (abc_heap, New cap2) = Some (None, ?H, ?C)"
    by (simp add: eval_defs abc_heap_def cap2_def evictLoop.simps)
  note T0 = C9_value_isolation[where c = "New cap2" and v = "Some 0" and h = abc_heap
      and k = "''a''" and ttl = 0 and now = 1 and cfg = cap2]
  from T0 hyp0 obtain h1 c1 where
    S1: "Set ''a'' (Some 0) 0 1 (abc_heap, New cap2) = Some (None, h1, c1)"
    and I1: "\<forall>bs now2. got (Get ''a'' now2 (mutate (Some 0) bs h1, c1)) =
        got (Get ''a'' now2 (h1, c1))"
    by blast
  have eq1: "h1 = ?H" "c1 = ?C" using S0 S1 by simp_all
  have "got (Get ''a'' 2 (?H, ?C)) = ([65], True)"
    by (simp add: eval_defs got_def bytes_of_def)
  then have g1: "got (Get ''a'' 2 (mutate (Some 0) [88] h1, c1)) = ([65], True)"
    using I1 unfolding eq1 by simp
  have m1: "bytes_of (mutate (Some 0) [88] h1) (Some 0) = [88]"
    unfolding eq1 by (simp add: mutate_def bytes_of_def load_def)
  have 1: "\<exists>h1 c1. Set ''a'' (Some 0) 0 1 (abc_heap, New cap2) = Some (None, h1, c1) \<and>
      bytes_of (mutate (Some 0) [88] h1) (Some 0) = [88] \<and>
      got (Get ''a'' 2 (mutate (Some 0) [88] h1, c1)) = ([65], True)"
    by (rule exI[of _ h1], rule exI[of _ c1]) (intro conjI S1 m1 g1)
  have i: "cache_inv ex_full" by (simp add: cache_inv_def ex_full_def)
  have ok: "vals_ok ex_heap ex_full" by (simp add: vals_ok_def ex_full_def ex_heap_def)
  have G: "Get ''b'' 10 (ex_heap, ex_full) = ((Some 2, True), ?H2, ?C2)"
    by (simp add: eval_defs ex_full_def ex_heap_def)
  note T = C9_value_isolation[where c = ex_full and v = None and h = ex_heap
      and k = "''b''" and ttl = 0 and now = 10 and cfg = cap2]
  have I2: "got (Get ''b'' 11 (mutate (Some 2) [88] ?H2, ?C2)) = got (Get ''b'' 11 (?H2, ?C2))"
    using T i ok G by blast
  have "got (Get ''b'' 11 (?H2, ?C2)) = ([66], True)"
    by (simp add: eval_defs got_def bytes_of_def ex_full_def)
  then have g2: "got (Get ''b'' 11 (mutate (Some 2) [88] ?H2, ?C2)) = ([66], True)"
    using I2 by simp
  have m2: "bytes_of (mutate (Some 2) [88] ?H2) (Some 2) = [88]"
    by (simp add: mutate_def bytes_of_def load_def)
  have 2: "\<exists>r h1 c1. Get ''b'' 10 (ex_heap, ex_full) = ((r, True), h1, c1) \<and>
      bytes_of (mutate r [88] h1) r = [88] \<and>
      got (Get ''b'' 11 (mutate r [88] h1, c1)) = ([66], True)"
    by (rule exI[of _ "Some 2"], rule exI[of _ ?H2], rule exI[of _ ?C2]) (intro conjI G m2 g2)
  have "\<forall>el a. lookup (items ex_full) ''b'' = Some el \<and> val (elems ex_full ! el) = Some a \<longrightarrow>
      load (ex_heap[0 := [88]]) a = load ex_heap a"
    by (simp add: lookup_def ex_full_def load_def ex_heap_def)
  then have 3: "got (Get ''b'' 10 (ex_heap[0 := [88]], ex_full)) =
      got (Get ''b'' 10 (ex_heap, ex_full))"
    using T by blast
  show ?thesis by (intro conjI i0 o0 v0 1 i ok 2 3)
qed

end
